theory Spec2Isabelle
  imports Complex_Main
begin

section \<open>Data model\<close>

text \<open>
  A menu item is the JavaScript object that \<^verbatim>\<open>server/Menu.js\<close> reads and writes: the
  properties \<^verbatim>\<open>name\<close> and \<^verbatim>\<open>icon\<close>, the optional number \<^verbatim>\<open>angle\<close>, the optional string
  \<^verbatim>\<open>id\<close> and the optional array \<^verbatim>\<open>items\<close> of child items. An absent property is
  \<open>None\<close>. The root of a menu (the \<^verbatim>\<open>structure\<close> handed to \<^verbatim>\<open>Menu.show\<close>) has the same
  shape. Angles are JavaScript numbers; the model computes with exact real numbers, which
  agrees with the double arithmetic of the source wherever every intermediate value is
  representable (for instance integer degrees with an integer gap). Where the source
  rounds, its angles differ from the model's by the rounding, and a comparison that is an
  exact tie in the model (the test for the gap of the parent link in the loop of a wedge)
  can come out the other way in the source.
\<close>

datatype item =
  Item (item_name: string) (item_icon: string) (item_angle: "real option")
       (item_id: "string option") (item_items: "item list option")

text \<open>The assignment \<^verbatim>\<open>item.angle = a\<close>, and the replacement of the children of an item.\<close>

fun set_angle :: "real \<Rightarrow> item \<Rightarrow> item" where
  "set_angle a (Item n ic _ d cs) = Item n ic (Some a) d cs"

fun set_items :: "item list option \<Rightarrow> item \<Rightarrow> item" where
  "set_items cs (Item n ic a d _) = Item n ic a d cs"

text \<open>
  JavaScript truthiness of the values the source tests with \<^verbatim>\<open>if (x)\<close>: an absent
  property and the number \<open>0\<close> are falsy, and so are an absent property and the empty
  string.
\<close>

definition truthy_num :: "real option \<Rightarrow> bool" where
  "truthy_num x = (case x of None \<Rightarrow> False | Some a \<Rightarrow> a \<noteq> 0)"

definition truthy_str :: "string option \<Rightarrow> bool" where
  "truthy_str x = (case x of None \<Rightarrow> False | Some s \<Rightarrow> s \<noteq> [])"

section \<open>Path addressing: \<^verbatim>\<open>Menu._updateItemIDs\<close>\<close>

text \<open>The decimal text that \<^verbatim>\<open>'/' + i\<close> appends for the loop index \<open>i\<close>.\<close>

definition digit_char :: "nat \<Rightarrow> char" where
  "digit_char d = ''0123456789'' ! d"

function string_of_nat :: "nat \<Rightarrow> string" where
  "string_of_nat n =
     (if n < 10 then [digit_char n] else string_of_nat (n div 10) @ [digit_char (n mod 10)])"
  by pat_completeness auto
termination
  by (relation "measure id") auto

declare string_of_nat.simps [simp del]

text \<open>
  \<^verbatim>\<open>if (parentID) { item.id = parentID + '/' + i; } else { item.id = '/' + i; }\<close>
\<close>

definition newID :: "string option \<Rightarrow> nat \<Rightarrow> string" where
  "newID parentID i =
     (if truthy_str parentID then the parentID @ ''/'' @ string_of_nat i
      else ''/'' @ string_of_nat i)"

text \<open>
  The loop \<^verbatim>\<open>for (let i = 0; i < items.length; i++)\<close> is \<open>updateItemIDs_from\<close>, started
  at index \<open>0\<close>; its body is \<open>updateItemID\<close>: an item whose \<^verbatim>\<open>id\<close> is falsy gets a new
  one, and the children, when the property \<^verbatim>\<open>items\<close> is there, are visited with the
  item's (possibly new) id as their \<^verbatim>\<open>parentID\<close>.
\<close>

fun updateItemID :: "nat \<Rightarrow> item \<Rightarrow> string option \<Rightarrow> item"
  and updateItemIDs_from :: "nat \<Rightarrow> item list \<Rightarrow> string option \<Rightarrow> item list" where
  "updateItemID i (Item n ic a d cs) parentID =
     (let d' = (if \<not> truthy_str d then Some (newID parentID i) else d)
      in Item n ic a d'
           (case cs of None \<Rightarrow> None | Some l \<Rightarrow> Some (updateItemIDs_from 0 l d')))"
| "updateItemIDs_from i [] parentID = []"
| "updateItemIDs_from i (x # xs) parentID =
     updateItemID i x parentID # updateItemIDs_from (Suc i) xs parentID"

definition updateItemIDs :: "item list \<Rightarrow> string option \<Rightarrow> item list" where
  "updateItemIDs its parentID = updateItemIDs_from 0 its parentID"

section \<open>Shortcut reconciliation: \<^verbatim>\<open>Daemon._onMenuConfigsChanged\<close>\<close>

text \<open>
  A menu configuration entry, as parsed from the setting \<^verbatim>\<open>menu-configuration\<close>; the
  shortcut of a menu is stored in its \<^verbatim>\<open>data\<close> property.
\<close>

record menuConfig =
  config_name :: string
  config_data :: string

text \<open>
  The class \<^verbatim>\<open>Shortcuts\<close> is a collaborator: the model records the calls of
  \<^verbatim>\<open>bind\<close> and \<^verbatim>\<open>unbind\<close> in the order they are made, and takes what
  \<^verbatim>\<open>getBound()\<close> yields, in iteration order, as an argument.
\<close>

datatype shortcut_call = Bind string | Unbind string

text \<open>
  A JavaScript \<^verbatim>\<open>Set\<close> of strings is the list of its elements in insertion order:
  \<^verbatim>\<open>add\<close> appends an element that is not there yet, \<^verbatim>\<open>delete\<close> removes it.
\<close>

definition set_add :: "string \<Rightarrow> string list \<Rightarrow> string list" where
  "set_add x s = (if x \<in> set s then s else s @ [x])"

definition set_delete :: "string \<Rightarrow> string list \<Rightarrow> string list" where
  "set_delete x s = removeAll x s"

text \<open>First loop: the set of all required hotkeys.\<close>

fun requiredShortcuts :: "menuConfig list \<Rightarrow> string list \<Rightarrow> string list" where
  "requiredShortcuts [] newShortcuts = newShortcuts"
| "requiredShortcuts (c # cs) newShortcuts =
     requiredShortcuts cs
       (if config_data c \<noteq> [] then set_add (config_data c) newShortcuts else newShortcuts)"

text \<open>
  Second loop, over the bound hotkeys: one that is required is removed from the set of
  required hotkeys, any other is unbound.
\<close>

fun unbindObsolete ::
  "string list \<Rightarrow> string list \<Rightarrow> shortcut_call list \<Rightarrow> string list \<times> shortcut_call list" where
  "unbindObsolete [] newShortcuts calls = (newShortcuts, calls)"
| "unbindObsolete (existingShortcut # rest) newShortcuts calls =
     (if existingShortcut \<in> set newShortcuts
      then unbindObsolete rest (set_delete existingShortcut newShortcuts) calls
      else unbindObsolete rest newShortcuts (calls @ [Unbind existingShortcut]))"

text \<open>Third loop: the remaining hotkeys of the set are bound.\<close>

definition onMenuConfigsChanged :: "menuConfig list \<Rightarrow> string list \<Rightarrow> shortcut_call list" where
  "onMenuConfigsChanged menuConfigs bound =
     (let (newShortcuts, calls) = unbindObsolete bound (requiredShortcuts menuConfigs []) []
      in calls @ map Bind newShortcuts)"

text \<open>The distinct non-empty shortcut strings of a configuration.\<close>

definition desired :: "menuConfig list \<Rightarrow> string set" where
  "desired menuConfigs = {s \<in> config_data ` set menuConfigs. s \<noteq> []}"

section \<open>Angular layout: \<^verbatim>\<open>Menu._updateItemAngles\<close>\<close>

text \<open>An entry \<^verbatim>\<open>{angle: item.angle, index: index}\<close> of the array \<^verbatim>\<open>fixedAngles\<close>.\<close>

record fixedAngle =
  angle :: real
  index :: nat

text \<open>
  The remainder \<^verbatim>\<open>x % y\<close> of JavaScript: the quotient is truncated towards zero, so
  the result has the sign of \<open>x\<close>.
\<close>

definition js_rem :: "real \<Rightarrow> real \<Rightarrow> real" where
  "js_rem x y = x - y * of_int (if x / y < 0 then \<lceil>x / y\<rceil> else \<lfloor>x / y\<rfloor>)"

text \<open>
  \<^verbatim>\<open>items.forEach((item, index) => { if (item.angle) { fixedAngles.push(...) } })\<close>:
  the items whose \<^verbatim>\<open>angle\<close> is truthy, in list order, with their index.
\<close>

fun collectFixed :: "item list \<Rightarrow> nat \<Rightarrow> fixedAngle list" where
  "collectFixed [] i = []"
| "collectFixed (item # rest) i =
     (if truthy_num (item_angle item)
      then \<lparr>angle = the (item_angle item), index = i\<rparr> # collectFixed rest (Suc i)
      else collectFixed rest (Suc i))"

text \<open>
  The first loop over \<^verbatim>\<open>fixedAngles\<close>; \<open>previous\<close> is the angle at \<open>i - 1\<close>, absent for
  \<open>i = 0\<close>. The result \<open>False\<close> is the source's \<^verbatim>\<open>return false\<close>.
\<close>

fun fixedAnglesValid :: "real option \<Rightarrow> fixedAngle list \<Rightarrow> bool" where
  "fixedAnglesValid previous [] = True"
| "fixedAnglesValid previous (f # fs) =
     (if (case previous of None \<Rightarrow> False | Some p \<Rightarrow> angle f \<le> p) then False
      else if angle f < 0 \<or> 360 \<le> angle f then False
      else fixedAnglesValid (Some (angle f)) fs)"

text \<open>
  \<^verbatim>\<open>if (parentAngle) { ... if (Math.abs(fixedAngles[i].angle - parentAngle) < 1.0) return false\<close>
\<close>

definition parentCollides :: "fixedAngle list \<Rightarrow> real option \<Rightarrow> bool" where
  "parentCollides fixedAngles parentAngle =
     (truthy_num parentAngle \<and> list_ex (\<lambda>f. \<bar>angle f - the parentAngle\<bar> < 1) fixedAngles)"

text \<open>
  \<^verbatim>\<open>let firstAngle = 90; if (parentAngle && parentAngle < 180) { firstAngle = 270; }\<close>
\<close>

definition firstAngle :: "real option \<Rightarrow> real" where
  "firstAngle parentAngle =
     (if truthy_num parentAngle \<and> the parentAngle < 180 then 270 else 90)"

text \<open>
  The loop \<^verbatim>\<open>while (index != wedgeEndIndex)\<close>, which walks the indices circularly.
  \<open>wedgeEndIndex\<close> is the index of an item (\<open>collectFixed_index_less\<close> below), and the
  condition of the model says so: with an end index outside the list the walk would
  never reach it. The lemma is the decrease of the distance to the end index.
\<close>

lemma wedgeLoop_measure:
  fixes i e n :: nat
  assumes "i \<noteq> e" "e < n"
  shows "(if Suc i mod n < n then (e + n - Suc i mod n) mod n else n + 1)
         < (if i < n then (e + n - i) mod n else n + 1)"
proof -
  have n: "Suc i mod n < n" using assms by simp
  have less: "(e + n - Suc i mod n) mod n < n" using assms by simp
  show ?thesis
  proof (cases "i < n")
    case False
    with n less show ?thesis by simp
  next
    case True
    consider "i < e" | "e < i" "Suc i < n" | "e < i" "Suc i = n"
      using assms True by linarith
    then have "(e + n - Suc i mod n) mod n < (e + n - i) mod n"
    proof cases
      case 1
      then have a: "Suc i mod n = Suc i" using assms by simp
      have "e + n - Suc i = (e - Suc i) + n" using 1 by simp
      then have "(e + n - Suc i) mod n = ((e - Suc i) + n) mod n" by (simp only:)
      also have "\<dots> = (e - Suc i) mod n" by (rule mod_add_self2)
      also have "\<dots> = e - Suc i" using assms by (intro mod_less) simp
      finally have l: "(e + n - Suc i mod n) mod n = e - Suc i" by (simp only: a)
      have "e + n - i = (e - i) + n" using 1 by simp
      then have "(e + n - i) mod n = ((e - i) + n) mod n" by (simp only:)
      also have "\<dots> = (e - i) mod n" by (rule mod_add_self2)
      also have "\<dots> = e - i" using assms by (intro mod_less) simp
      finally have r: "(e + n - i) mod n = e - i" .
      show ?thesis unfolding l r using 1 by simp
    next
      case 2
      then have a: "Suc i mod n = Suc i" by simp
      have l: "(e + n - Suc i) mod n = e + n - Suc i" using 2 assms by (intro mod_less) simp
      have r: "(e + n - i) mod n = e + n - i" using 2 assms by (intro mod_less) simp
      show ?thesis unfolding a l r using 2 True by simp
    next
      case 3
      then have a: "Suc i mod n = 0" by simp
      have "e + n - i = Suc e" using 3 by simp
      then have "(e + n - i) mod n = Suc e mod n" by (simp only:)
      also have "\<dots> = Suc e" using 3 by (intro mod_less) simp
      finally have r: "(e + n - i) mod n = Suc e" .
      have l: "(e + n - 0) mod n = e" using assms by simp
      show ?thesis unfolding a l r by simp
    qed
    with n True show ?thesis by simp
  qed
qed

function wedgeLoop ::
  "nat \<Rightarrow> nat \<Rightarrow> bool \<Rightarrow> nat \<Rightarrow> real \<Rightarrow> real \<Rightarrow> real option \<Rightarrow> item list \<Rightarrow> item list" where
  "wedgeLoop i count parentGapRequired wedgeEndIndex wedgeBeginAngle wedgeItemGap parentAngle items =
     (if i \<noteq> wedgeEndIndex \<and> wedgeEndIndex < length items then
        let itemAngle = wedgeBeginAngle + wedgeItemGap * of_nat count;
            insertGap = (parentGapRequired \<and> itemAngle + wedgeItemGap / 2 - the parentAngle > 0);
            count = (if insertGap then count + 1 else count);
            itemAngle = (if insertGap then wedgeBeginAngle + wedgeItemGap * of_nat count else itemAngle);
            parentGapRequired = (if insertGap then False else parentGapRequired)
        in wedgeLoop ((i + 1) mod length items) (count + 1) parentGapRequired
             wedgeEndIndex wedgeBeginAngle wedgeItemGap parentAngle
             (items[i := set_angle (js_rem itemAngle 360) (items ! i)])
      else items)"
  by pat_completeness auto
termination
proof (relation "measure (\<lambda>(i, c, g, e, b, w, p, items).
          if i < length items then (e + length items - i) mod length items else length items + 1)",
       goal_cases)
  case 1
  show ?case by simp
next
  case (2 i count parentGapRequired e b w p items)
  then show ?case
    using wedgeLoop_measure [of i e "length items"] by (auto split: if_splits)
qed

declare wedgeLoop.simps [simp del]

text \<open>
  One round of the loop over the wedges. The state is the list of items and
  \<^verbatim>\<open>parentAngle\<close>, which the source increases by 360 in place, so that the next round
  sees the increased value. The item count is computed on integers; its dividend is
  never negative for indices of the list, where \<^verbatim>\<open>%\<close> and \<open>mod\<close> agree. The test
  \<^verbatim>\<open>parentAngle != undefined\<close> holds for every number, \<open>0\<close> included.
\<close>

definition wedge :: "nat \<Rightarrow> fixedAngle list \<Rightarrow> item list \<times> real option \<Rightarrow> item list \<times> real option" where
  "wedge i fixedAngles state =
     (let (items, parentAngle) = state;
          wedgeBeginIndex = index (fixedAngles ! i);
          wedgeBeginAngle = angle (fixedAngles ! i);
          wedgeEndIndex = index (fixedAngles ! ((i + 1) mod length fixedAngles));
          wedgeEndAngle = angle (fixedAngles ! ((i + 1) mod length fixedAngles));
          wedgeEndAngle =
            (if wedgeBeginAngle \<le> wedgeEndAngle then wedgeEndAngle + 360 else wedgeEndAngle);
          wedgeItemCount =
            (int wedgeEndIndex - int wedgeBeginIndex - 1 + int (length items)) mod int (length items);
          parentAngle =
            (case parentAngle of None \<Rightarrow> None
             | Some p \<Rightarrow> if p < wedgeBeginAngle then Some (p + 360) else Some p);
          parentInWedge =
            (case parentAngle of None \<Rightarrow> False
             | Some p \<Rightarrow> p > wedgeBeginAngle \<and> p < wedgeEndAngle);
          wedgeItemCount = (if parentInWedge then wedgeItemCount + 1 else wedgeItemCount);
          wedgeItemGap = (wedgeEndAngle - wedgeBeginAngle) / of_int (wedgeItemCount + 1)
      in (wedgeLoop ((wedgeBeginIndex + 1) mod length items) 1 parentInWedge
            wedgeEndIndex wedgeBeginAngle wedgeItemGap parentAngle items,
          parentAngle))"

text \<open>\<^verbatim>\<open>for (let i = 0; i < fixedAngles.length; i++)\<close>\<close>

function wedges :: "nat \<Rightarrow> fixedAngle list \<Rightarrow> item list \<times> real option \<Rightarrow> item list \<times> real option" where
  "wedges i fixedAngles state =
     (if i < length fixedAngles then wedges (Suc i) fixedAngles (wedge i fixedAngles state)
      else state)"
  by pat_completeness auto
termination
  by (relation "measure (\<lambda>(i, fixedAngles, state). length fixedAngles - i)") auto

declare wedges.simps [simp del]

text \<open>
  The angles of one menu level: everything the method does for a non-empty list before
  it visits the children. A \<^verbatim>\<open>return false\<close> happens before any item is written, so the
  items come back as they were.
\<close>

definition layoutLevel :: "item list \<Rightarrow> real option \<Rightarrow> bool \<times> item list" where
  "layoutLevel items parentAngle =
     (let fixedAngles = collectFixed items 0
      in if \<not> fixedAnglesValid None fixedAngles then (False, items)
         else if parentCollides fixedAngles parentAngle then (False, items)
         else
           let (fixedAngles, items) =
                 (if length fixedAngles = 0
                  then ([\<lparr>angle = firstAngle parentAngle, index = 0\<rparr>],
                        items[0 := set_angle (firstAngle parentAngle) (items ! 0)])
                  else (fixedAngles, items))
           in (True, fst (wedges 0 fixedAngles (items, parentAngle))))"

subsection \<open>The children of the items are not touched by the layout of a level\<close>

text \<open>
  The loops above write the property \<^verbatim>\<open>angle\<close> only. This is what makes the recursion
  into the children well-founded.
\<close>

lemma set_angle_sel [simp]:
  "item_items (set_angle a x) = item_items x"
  "item_angle (set_angle a x) = Some a"
  "item_name (set_angle a x) = item_name x"
  "item_icon (set_angle a x) = item_icon x"
  "item_id (set_angle a x) = item_id x"
  by (cases x; simp)+

lemma map_items_update:
  "map item_items (items[i := set_angle a (items ! i)]) = map item_items items"
proof (rule nth_equalityI)
  show "length (map item_items (items[i := set_angle a (items ! i)])) = length (map item_items items)"
    by simp
next
  fix k assume "k < length (map item_items (items[i := set_angle a (items ! i)]))"
  then show "map item_items (items[i := set_angle a (items ! i)]) ! k = map item_items items ! k"
    by (cases "k = i") simp_all
qed

lemma wedgeLoop_done:
  "\<not> (i \<noteq> e \<and> e < length items) \<Longrightarrow> wedgeLoop i c g e b w p items = items"
  by (subst wedgeLoop.simps) (simp only: if_False)

lemma wedgeLoop_step:
  "i \<noteq> e \<Longrightarrow> e < length items \<Longrightarrow>
   wedgeLoop i c g e b w p items =
     (if g \<and> b + w * of_nat c + w / 2 - the p > 0
      then wedgeLoop ((i + 1) mod length items) (c + 2) False e b w p
             (items[i := set_angle (js_rem (b + w * of_nat (c + 1)) 360) (items ! i)])
      else wedgeLoop ((i + 1) mod length items) (c + 1) g e b w p
             (items[i := set_angle (js_rem (b + w * of_nat c) 360) (items ! i)]))"
  by (subst wedgeLoop.simps) (simp add: Let_def)

lemma wedgeLoop_induct [case_names stop step]:
  assumes "\<And>i c g e b w p items. \<not> (i \<noteq> e \<and> e < length items) \<Longrightarrow> P i c g e b w p items"
    and "\<And>i c g e b w p items.
          i \<noteq> e \<Longrightarrow> e < length items \<Longrightarrow>
          (g \<and> b + w * of_nat c + w / 2 - the p > 0 \<Longrightarrow>
             P ((i + 1) mod length items) (c + 2) False e b w p
               (items[i := set_angle (js_rem (b + w * of_nat (c + 1)) 360) (items ! i)])) \<Longrightarrow>
          (\<not> (g \<and> b + w * of_nat c + w / 2 - the p > 0) \<Longrightarrow>
             P ((i + 1) mod length items) (c + 1) g e b w p
               (items[i := set_angle (js_rem (b + w * of_nat c) 360) (items ! i)])) \<Longrightarrow>
          P i c g e b w p items"
  shows "P i c g e b w p items"
proof (induction i c g e b w p items rule: wedgeLoop.induct)
  case (1 i c g e b w p items)
  show ?case
  proof (cases "i \<noteq> e \<and> e < length items")
    case False
    then show ?thesis by (rule assms(1))
  next
    case True
    note IH = 1 [OF True refl refl refl refl refl]
    show ?thesis
    proof (rule assms(2))
      show "i \<noteq> e" "e < length items" using True by simp_all
    next
      assume "g \<and> b + w * of_nat c + w / 2 - the p > 0"
      with IH show "P ((i + 1) mod length items) (c + 2) False e b w p
               (items[i := set_angle (js_rem (b + w * of_nat (c + 1)) 360) (items ! i)])"
        by simp
    next
      assume "\<not> (g \<and> b + w * of_nat c + w / 2 - the p > 0)"
      with IH show "P ((i + 1) mod length items) (c + 1) g e b w p
               (items[i := set_angle (js_rem (b + w * of_nat c) 360) (items ! i)])"
        by auto
    qed
  qed
qed

lemma wedgeLoop_length [simp]:
  "length (wedgeLoop i c g e b w p items) = length items"
proof (induction i c g e b w p items rule: wedgeLoop_induct)
  case (stop i c g e b w p items)
  then show ?case by (simp add: wedgeLoop_done)
next
  case (step i c g e b w p items)
  then show ?case by (simp add: wedgeLoop_step)
qed

lemma wedgeLoop_items:
  "map item_items (wedgeLoop i c g e b w p items) = map item_items items"
proof (induction i c g e b w p items rule: wedgeLoop_induct)
  case (stop i c g e b w p items)
  then show ?case by (simp add: wedgeLoop_done)
next
  case (step i c g e b w p items)
  then show ?case by (simp add: wedgeLoop_step map_items_update)
qed

lemma wedge_items:
  "map item_items (fst (wedge i fs (items, p))) = map item_items items"
  by (simp add: wedge_def Let_def wedgeLoop_items)

lemma wedges_items:
  "map item_items (fst (wedges i fs st)) = map item_items (fst st)"
proof (induction i fs st rule: wedges.induct)
  case (1 i fs st)
  show ?case
  proof (cases "i < length fs")
    case True
    have "map item_items (fst (wedges i fs st)) =
          map item_items (fst (wedges (Suc i) fs (wedge i fs st)))"
      using True by (subst wedges.simps) simp
    also have "\<dots> = map item_items (fst (wedge i fs st))" by (rule 1 [OF True])
    also have "\<dots> = map item_items (fst st)" by (cases st) (simp add: wedge_items)
    finally show ?thesis .
  next
    case False
    then show ?thesis by (subst wedges.simps) simp
  qed
qed

lemma layoutLevel_items:
  "map item_items (snd (layoutLevel items p)) = map item_items items"
  by (simp add: layoutLevel_def Let_def wedges_items map_items_update)

lemma size_children: "item_items x = Some cs \<Longrightarrow> size_list size cs < size x"
  by (cases x) simp

lemma size_member: "x \<in> set items \<Longrightarrow> size x \<le> size_list size items"
  by (induction items) auto

lemma layoutLevel_child_size:
  assumes "layoutLevel items p = (ok, items')" "x \<in> set items'" "item_items x = Some cs"
  shows "size_list size cs < size_list size items"
proof -
  from assms(2,3) have "Some cs \<in> set (map item_items items')" by force
  with assms(1) layoutLevel_items [of items p] have "Some cs \<in> set (map item_items items)"
    by simp
  then obtain y where "y \<in> set items" "item_items y = Some cs" by auto
  then show ?thesis using size_children size_member by fastforce
qed

subsection \<open>The recursion into the children\<close>

text \<open>
  \<^verbatim>\<open>(item.angle + 180) % 360\<close>, the parent angle handed to the children of an item. Every
  item has an angle when the source computes this (\<open>layoutLevel_angles_set\<close> below).
\<close>

definition childParentAngle :: "item \<Rightarrow> real option" where
  "childParentAngle item = Some (js_rem (the (item_angle item) + 180) 360)"

text \<open>
  The method itself. The children are visited by
  \<^verbatim>\<open>items.forEach(item => { if (item.items) { if (!this._updateItemAngles(...)) { return false; } } })\<close>
  and the method ends with \<^verbatim>\<open>return true\<close>. The \<^verbatim>\<open>return false\<close> inside the arrow function
  ends that call of the arrow function; \<^verbatim>\<open>forEach\<close> discards the value and goes on with
  the next item. So the result of the recursive call is not part of the result of the
  method, and only what the call wrote to the children is kept.
\<close>

function updateItemAngles :: "item list \<Rightarrow> real option \<Rightarrow> bool \<times> item list" where
  "updateItemAngles items parentAngle =
     (if length items = 0 then (True, items)
      else
        case layoutLevel items parentAngle of
          (False, items) \<Rightarrow> (False, items)
        | (True, items) \<Rightarrow>
            (True,
             map (\<lambda>item.
                    case item_items item of
                      None \<Rightarrow> item
                    | Some children \<Rightarrow>
                        set_items (Some (snd (updateItemAngles children (childParentAngle item)))) item)
                 items))"
  by pat_completeness auto
termination
proof (relation "measure (\<lambda>(items, parentAngle). size_list size items)", goal_cases)
  case 1
  show ?case by simp
next
  case (2 items parentAngle x1 x2 x y)
  then have "layoutLevel items parentAngle = (True, x2)" by simp
  from layoutLevel_child_size [OF this] 2 show ?case by simp
qed

declare updateItemAngles.simps [simp del]

section \<open>The menu session: \<^verbatim>\<open>Menu.show\<close>, \<^verbatim>\<open>Menu._hide\<close>\<close>

text \<open>
  The error codes of \<^verbatim>\<open>DBusInterface.errorCodes\<close> that \<^verbatim>\<open>Menu.show\<close> returns. A call
  returns either one of them or the id of the menu, so its result is a sum.
\<close>

datatype error = eAlreadyActive | ePropertyMissing | eInvalidAngles | eUnknownError

text \<open>
  The fields of \<^verbatim>\<open>Menu\<close> that decide what \<^verbatim>\<open>show\<close> returns: \<^verbatim>\<open>_menuID\<close> (\<open>None\<close> is
  \<^verbatim>\<open>null\<close>), \<^verbatim>\<open>_structure\<close> and \<^verbatim>\<open>_editMode\<close>. The actors and the background belong to the
  rendering side; the one value the method takes from it is the result of
  \<^verbatim>\<open>this._background.show(editMode)\<close>, the argument \<open>grabbed\<close> of the model.
\<close>

record menu_state =
  menuID :: "int option"
  menuStructure :: item
  editMode :: bool

text \<open>The constructor: \<^verbatim>\<open>this._menuID = null; this._structure = {}; this._editMode = false\<close>.\<close>

definition newMenu :: menu_state where
  "newMenu = \<lparr>menuID = None, menuStructure = Item [] [] None None None, editMode = False\<rparr>"

text \<open>Truthiness of \<^verbatim>\<open>this._menuID\<close> in \<^verbatim>\<open>if (this._menuID)\<close>: \<^verbatim>\<open>null\<close> and \<open>0\<close> are falsy.\<close>

definition truthy_int :: "int option \<Rightarrow> bool" where
  "truthy_int x = (case x of None \<Rightarrow> False | Some n \<Rightarrow> n \<noteq> 0)"

text \<open>\<^verbatim>\<open>structure.items && structure.items.length > 0\<close>\<close>

definition hasRootItems :: "item \<Rightarrow> bool" where
  "hasRootItems s = (case item_items s of None \<Rightarrow> False | Some items \<Rightarrow> length items > 0)"

definition menu_show ::
  "menu_state \<Rightarrow> int \<Rightarrow> item \<Rightarrow> bool \<Rightarrow> bool \<Rightarrow> (error + int) \<times> menu_state" where
  "menu_show m menuID' structure' editMode' grabbed =
     (if truthy_int (menuID m) then (Inl eAlreadyActive, m)
      else if \<not> hasRootItems structure' then (Inl ePropertyMissing, m)
      else
        let m = m\<lparr>menuStructure := structure', editMode := editMode'\<rparr>;
            (ok, items) = updateItemAngles (the (item_items (menuStructure m))) None;
            m = m\<lparr>menuStructure := set_items (Some items) (menuStructure m)\<rparr>
        in if \<not> ok then (Inl eInvalidAngles, m)
           else
             let items = updateItemIDs (the (item_items (menuStructure m))) None;
                 m = m\<lparr>menuStructure := set_items (Some items) (menuStructure m)\<rparr>
             in if \<not> grabbed then (Inl eUnknownError, m)
                else (Inr menuID', m\<lparr>menuID := Some menuID'\<rparr>))"

text \<open>\<^verbatim>\<open>_hide\<close>: \<^verbatim>\<open>if (this._menuID == null) return; ...; this._menuID = null\<close>.\<close>

definition menu_hide :: "menu_state \<Rightarrow> menu_state" where
  "menu_hide m = (if menuID m = None then m else m\<lparr>menuID := None\<rparr>)"

section \<open>The daemon: \<^verbatim>\<open>Daemon._openCustomMenu\<close>\<close>

text \<open>
  \<^verbatim>\<open>this._nextID = 0\<close> in the constructor, and
  \<^verbatim>\<open>return this._menu.show(this._nextID++, structure, previewMode)\<close> for a menu given as an
  object. The tree of the model is well-formed, so \<^verbatim>\<open>show\<close> raises no exception and the
  \<^verbatim>\<open>catch\<close> branch is not taken.
\<close>

record daemon_state =
  nextID :: int
  menu :: menu_state

definition newDaemon :: daemon_state where
  "newDaemon = \<lparr>nextID = 0, menu = newMenu\<rparr>"

definition openCustomMenu ::
  "daemon_state \<Rightarrow> item \<Rightarrow> bool \<Rightarrow> bool \<Rightarrow> (error + int) \<times> daemon_state" where
  "openCustomMenu d config previewMode grabbed =
     (let (result, m) = menu_show (menu d) (nextID d) config previewMode grabbed
      in (result, d\<lparr>nextID := nextID d + 1, menu := m\<rparr>))"

section \<open>Notions used in the statements and proofs\<close>

text \<open>
  Object literals for the examples: \<^verbatim>\<open>{name: n, angle: a}\<close> and
  \<^verbatim>\<open>{name: n, angle: a, items: [...]}\<close>, the angle being left out for \<open>None\<close>.
\<close>

definition leaf :: "string \<Rightarrow> real option \<Rightarrow> item" where
  "leaf n a = Item n [] a None None"

definition node :: "string \<Rightarrow> real option \<Rightarrow> item list \<Rightarrow> item" where
  "node n a children = Item n [] a None (Some children)"

text \<open>
  The decimal text of a number, stated apart from the code: \<open>s\<close> is the decimal text of
  \<open>n\<close> when it is a non-empty string of the digits \<open>0\<close> to \<open>9\<close> (the characters 48 to 57)
  without a leading \<open>0\<close>, unless it is the one digit \<open>0\<close>, whose value in base ten is
  \<open>n\<close>. This is the text that JavaScript's \<^verbatim>\<open>'/' + i\<close> appends for an array index \<open>i\<close>.
\<close>

definition is_digit :: "char \<Rightarrow> bool" where
  "is_digit c \<longleftrightarrow> 48 \<le> (of_char c :: nat) \<and> (of_char c :: nat) \<le> 57"

definition digit_value :: "char \<Rightarrow> nat" where
  "digit_value c = of_char c - 48"

definition decimal_value :: "string \<Rightarrow> nat" where
  "decimal_value s = foldl (\<lambda>v c. 10 * v + digit_value c) 0 s"

definition is_decimal_of :: "string \<Rightarrow> nat \<Rightarrow> bool" where
  "is_decimal_of s n \<longleftrightarrow>
     s \<noteq> [] \<and> list_all is_digit s \<and> (length s = 1 \<or> hd s \<noteq> CHR ''0'') \<and> decimal_value s = n"

text \<open>
  The item as it is when the property \<^verbatim>\<open>angle\<close> is left out instead of being \<open>0\<close>
  (\<open>clearZero\<close>), and, for the proofs, the item with the angle \<open>0\<close> put in where the code
  sees none (\<open>fillZero\<close>).
\<close>

fun clearZero :: "item \<Rightarrow> item" where
  "clearZero (Item n ic a d cs) = Item n ic (if a = Some 0 then None else a) d cs"

definition fillZero :: "item \<Rightarrow> item" where
  "fillZero x = (if truthy_num (item_angle x) then x else set_angle 0 x)"

text \<open>
  Two lists of items agree outside a set \<open>K\<close> of indices when they have the same length,
  are equal at every index outside \<open>K\<close>, and differ at most in the angle elsewhere.
\<close>

definition agree :: "nat set \<Rightarrow> item list \<Rightarrow> item list \<Rightarrow> bool" where
  "agree K xs ys \<longleftrightarrow>
     length xs = length ys \<and>
     (\<forall>k < length xs. (k \<notin> K \<longrightarrow> xs ! k = ys ! k) \<and> (\<forall>a. set_angle a (xs ! k) = set_angle a (ys ! k)))"

text \<open>
  The indices that the loop of a wedge visits when it starts at \<open>i\<close> and ends at \<open>e\<close> in a
  list of length \<open>n\<close>, and the indices that the round \<open>i\<close> of the loop over the wedges
  writes.
\<close>

definition circ :: "nat \<Rightarrow> nat \<Rightarrow> nat \<Rightarrow> nat set" where
  "circ i e n = (if i \<le> e then {i..<e} else {i..<n} \<union> {..<e})"

definition wedgeSet :: "nat \<Rightarrow> fixedAngle list \<Rightarrow> nat \<Rightarrow> nat set" where
  "wedgeSet i fs n = circ ((index (fs ! i) + 1) mod n) (index (fs ! ((i + 1) mod length fs))) n"

section \<open>Properties of the path addressing\<close>

lemma truthy_newID: "truthy_str (Some (newID p i))"
  by (simp add: truthy_str_def newID_def)

lemma updateItemIDs_from_length: "length (updateItemIDs_from i xs p) = length xs"
  by (induction xs arbitrary: i) auto

lemma updateItemIDs_from_nth:
  "k < length xs \<Longrightarrow> updateItemIDs_from i xs p ! k = updateItemID (i + k) (xs ! k) p"
proof (induction xs arbitrary: i k)
  case Nil then show ?case by simp
next
  case (Cons x xs)
  then show ?case by (cases k) auto
qed

lemma updateItemID_idem:
  "updateItemID i (updateItemID i x p) p = updateItemID i x p"
  "updateItemIDs_from i xs p = ys \<Longrightarrow> updateItemIDs_from i ys p = ys"
proof (induction i x p and i xs p arbitrary: and ys rule: updateItemID_updateItemIDs_from.induct)
  case (1 i n ic a d cs parentID)
  then show ?case
    by (cases cs) (auto simp: Let_def truthy_newID)
next
  case (2 i parentID)
  then show ?case by auto
next
  case (3 i x xs parentID)
  then show ?case by auto
qed

lemma updateItemID_fields:
  "item_name (updateItemID i x p) = item_name x"
  "item_icon (updateItemID i x p) = item_icon x"
  "item_angle (updateItemID i x p) = item_angle x"
  "item_id (updateItemID i x p) =
     (if truthy_str (item_id x) then item_id x else Some (newID p i))"
  "item_items (updateItemID i x p) =
     map_option (\<lambda>l. updateItemIDs l (item_id (updateItemID i x p))) (item_items x)"
  by (cases x; cases "item_items x"; simp add: Let_def updateItemIDs_def)+

lemma string_of_nat_digit: "n < 10 \<Longrightarrow> string_of_nat n = [digit_char n]"
  by (simp add: string_of_nat.simps)

text \<open>
  \<open>string_of_nat n\<close> is the decimal text of \<open>n\<close>, and there is no other.
\<close>

lemma of_char_digit_char: "k < 10 \<Longrightarrow> (of_char (digit_char k) :: nat) = 48 + k"
proof -
  assume "k < 10"
  then have "k = 0 \<or> k = 1 \<or> k = 2 \<or> k = 3 \<or> k = 4 \<or> k = 5 \<or> k = 6 \<or> k = 7 \<or> k = 8 \<or> k = 9"
    by presburger
  then show ?thesis by (auto simp: digit_char_def)
qed

lemma is_digit_digit_char: "k < 10 \<Longrightarrow> is_digit (digit_char k)"
  by (simp add: is_digit_def of_char_digit_char)

lemma digit_value_digit_char: "k < 10 \<Longrightarrow> digit_value (digit_char k) = k"
  by (simp add: digit_value_def of_char_digit_char)

lemma digit_char_digit_value: "is_digit c \<Longrightarrow> digit_char (digit_value c) = c"
proof -
  assume c: "is_digit c"
  then have k: "digit_value c < 10" by (auto simp: is_digit_def digit_value_def)
  have "(of_char (digit_char (digit_value c)) :: nat) = of_char c"
    using c by (simp add: of_char_digit_char [OF k]) (simp add: is_digit_def digit_value_def)
  then show ?thesis by (simp only: of_char_eq_iff)
qed

lemma digit_char_zero: "digit_char 0 = CHR ''0''"
  by (simp add: digit_char_def)

lemma decimal_value_snoc: "decimal_value (s @ [c]) = 10 * decimal_value s + digit_value c"
  by (simp add: decimal_value_def)

lemma foldl_decimal_ge: "v \<le> foldl (\<lambda>v c. 10 * v + digit_value c) v s"
proof (induction s arbitrary: v)
  case Nil
  then show ?case by simp
next
  case (Cons c s)
  have "v \<le> 10 * v + digit_value c" by simp
  also have "\<dots> \<le> foldl (\<lambda>v c. 10 * v + digit_value c) (10 * v + digit_value c) s" by (rule Cons.IH)
  finally show ?case by simp
qed

lemma decimal_value_pos:
  assumes "s \<noteq> []" "is_digit (hd s)" "hd s \<noteq> CHR ''0''"
  shows "0 < decimal_value s"
proof -
  obtain c t where s: "s = c # t" using assms(1) by (cases s) auto
  have "digit_value c \<noteq> 0"
  proof
    assume "digit_value c = 0"
    then have "digit_char 0 = c" using digit_char_digit_value [of c] assms(2) s by simp
    with assms(3) s show False by (simp add: digit_char_zero)
  qed
  moreover have "digit_value c \<le> decimal_value s"
    using foldl_decimal_ge [of "digit_value c" t] by (simp add: decimal_value_def s)
  ultimately show ?thesis by simp
qed

lemma string_of_nat_nonempty: "string_of_nat n \<noteq> []"
  by (subst string_of_nat.simps) simp

lemma hd_string_of_nat: "10 \<le> n \<Longrightarrow> hd (string_of_nat n) \<noteq> CHR ''0''"
proof (induction n rule: string_of_nat.induct)
  case (1 n)
  let ?m = "n div 10"
  have m: "0 < ?m" using 1(2) by simp
  have sn: "string_of_nat n = string_of_nat ?m @ [digit_char (n mod 10)]"
    using 1(2) by (subst string_of_nat.simps) simp
  have hd: "hd (string_of_nat n) = hd (string_of_nat ?m)"
    unfolding sn using string_of_nat_nonempty by simp
  show ?case
  proof (cases "?m < 10")
    case True
    then have "string_of_nat ?m = [digit_char ?m]" by (rule string_of_nat_digit)
    moreover have "digit_char ?m \<noteq> CHR ''0''"
    proof
      assume "digit_char ?m = CHR ''0''"
      then have "digit_value (digit_char ?m) = digit_value (digit_char 0)"
        by (simp add: digit_char_zero)
      then show False using True m by (simp add: digit_value_digit_char)
    qed
    ultimately show ?thesis using hd by simp
  next
    case False
    then show ?thesis using 1(1) 1(2) hd by simp
  qed
qed

lemma string_of_nat_decimal: "is_decimal_of (string_of_nat n) n"
proof (induction n rule: string_of_nat.induct)
  case (1 n)
  show ?case
  proof (cases "n < 10")
    case True
    then show ?thesis
      by (simp add: string_of_nat_digit is_decimal_of_def is_digit_digit_char
          decimal_value_def digit_value_digit_char)
  next
    case False
    then have IH: "is_decimal_of (string_of_nat (n div 10)) (n div 10)" by (rule 1)
    have sn: "string_of_nat n = string_of_nat (n div 10) @ [digit_char (n mod 10)]"
      using False by (subst string_of_nat.simps) simp
    have "hd (string_of_nat n) \<noteq> CHR ''0''" using False by (intro hd_string_of_nat) simp
    moreover have "list_all is_digit (string_of_nat n)"
      using IH by (simp add: sn is_decimal_of_def is_digit_digit_char)
    moreover have "decimal_value (string_of_nat n) = n"
      using IH by (simp add: sn decimal_value_snoc is_decimal_of_def digit_value_digit_char)
    ultimately show ?thesis by (simp add: is_decimal_of_def string_of_nat_nonempty)
  qed
qed

lemma is_decimal_of_unique: "is_decimal_of s n \<Longrightarrow> s = string_of_nat n"
proof (induction n arbitrary: s rule: string_of_nat.induct)
  case (1 n)
  from 1(2) have ne: "s \<noteq> []" by (simp add: is_decimal_of_def)
  then obtain t c where s: "s = t @ [c]" by (cases s rule: rev_cases) auto
  from 1(2) have dig: "list_all is_digit t" "is_digit c"
    and val: "10 * decimal_value t + digit_value c = n"
    and can: "length s = 1 \<or> hd s \<noteq> CHR ''0''"
    by (simp_all add: is_decimal_of_def s decimal_value_snoc)
  have c10: "digit_value c < 10" using dig(2) by (auto simp: is_digit_def digit_value_def)
  have md: "n mod 10 = digit_value c" "n div 10 = decimal_value t" using val c10 by auto
  have c: "digit_char (n mod 10) = c" using dig(2) by (simp add: md digit_char_digit_value)
  show ?case
  proof (cases "t = []")
    case True
    then have "n < 10" using val c10 by (simp add: decimal_value_def)
    then show ?thesis using True s c by (simp add: string_of_nat_digit)
  next
    case False
    then have hd: "hd t = hd s" "1 < length s" by (simp_all add: s)
    with can have h0: "hd t \<noteq> CHR ''0''" by simp
    have hdig: "is_digit (hd t)" using dig(1) False by (cases t) simp_all
    have "0 < decimal_value t" by (rule decimal_value_pos [OF False hdig h0])
    then have n10: "\<not> n < 10" using md by simp
    have "is_decimal_of t (n div 10)"
      using False dig(1) h0 md by (simp add: is_decimal_of_def)
    then have "t = string_of_nat (n div 10)" by (rule 1(1) [OF n10])
    then show ?thesis using n10 s c by (subst string_of_nat.simps) simp
  qed
qed

lemma newID_decimal:
  "is_decimal_of d i \<Longrightarrow> newID p i = (case p of None \<Rightarrow> [] | Some s \<Rightarrow> s) @ ''/'' @ d"
  by (auto simp: newID_def truthy_str_def dest!: is_decimal_of_unique split: option.splits)

text \<open>
  C9: \<open>updateItemIDs\<close> is idempotent. A run keeps the length of the list. An item
  whose id is there (truthy) keeps it. Any other item, at index \<open>i\<close>, gets the id
  \<open>parent_path + "/" + index\<close>: the id of the parent (nothing at the top level), then \<open>/\<close>,
  then the decimal text of \<open>i\<close>, which exists and is unique. The children are addressed in the
  same way below the id of their item, and no other property changes. A second run on the
  result changes nothing.
\<close>

theorem assign_ids_idempotent:
  "length (updateItemIDs its p) = length its \<and>
   updateItemIDs (updateItemIDs its p) p = updateItemIDs its p \<and>
   (\<forall>i < length its.
      (truthy_str (item_id (its ! i)) \<longrightarrow> item_id (updateItemIDs its p ! i) = item_id (its ! i)) \<and>
      (\<not> truthy_str (item_id (its ! i)) \<longrightarrow>
         (\<exists>d. is_decimal_of d i) \<and>
         (\<forall>d. is_decimal_of d i \<longrightarrow>
            item_id (updateItemIDs its p ! i) =
              Some ((case p of None \<Rightarrow> [] | Some s \<Rightarrow> s) @ ''/'' @ d))) \<and>
      item_items (updateItemIDs its p ! i) =
        map_option (\<lambda>l. updateItemIDs l (item_id (updateItemIDs its p ! i))) (item_items (its ! i)) \<and>
      item_name (updateItemIDs its p ! i) = item_name (its ! i) \<and>
      item_icon (updateItemIDs its p ! i) = item_icon (its ! i) \<and>
      item_angle (updateItemIDs its p ! i) = item_angle (its ! i))"
proof (intro conjI allI impI)
  show "length (updateItemIDs its p) = length its"
    by (simp add: updateItemIDs_def updateItemIDs_from_length)
  show "updateItemIDs (updateItemIDs its p) p = updateItemIDs its p"
    unfolding updateItemIDs_def by (rule updateItemID_idem(2) [OF refl])
next
  fix i assume i: "i < length its"
  then have nth: "updateItemIDs its p ! i = updateItemID i (its ! i) p"
    by (simp add: updateItemIDs_def updateItemIDs_from_nth)
  show "item_id (updateItemIDs its p ! i) = item_id (its ! i)" if "truthy_str (item_id (its ! i))"
    unfolding nth using that by (simp add: updateItemID_fields)
  show "\<exists>d. is_decimal_of d i"
    using string_of_nat_decimal by blast
  show "item_id (updateItemIDs its p ! i) =
          Some ((case p of None \<Rightarrow> [] | Some s \<Rightarrow> s) @ ''/'' @ d)"
    if "\<not> truthy_str (item_id (its ! i))" "is_decimal_of d i" for d
    unfolding nth using that by (simp add: updateItemID_fields newID_decimal)
  show "item_items (updateItemIDs its p ! i) =
        map_option (\<lambda>l. updateItemIDs l (item_id (updateItemIDs its p ! i))) (item_items (its ! i))"
    unfolding nth by (rule updateItemID_fields)
  show "item_name (updateItemIDs its p ! i) = item_name (its ! i)"
    unfolding nth by (rule updateItemID_fields)
  show "item_icon (updateItemIDs its p ! i) = item_icon (its ! i)"
    unfolding nth by (rule updateItemID_fields)
  show "item_angle (updateItemIDs its p ! i) = item_angle (its ! i)"
    unfolding nth by (rule updateItemID_fields)
qed

theorem assign_ids_idempotent_witness:
  "updateItemIDs
     [Item ''a'' ''i'' None None
        (Some [Item ''b'' ''i'' None (Some ''x'') None, Item ''c'' ''i'' None None None]),
      Item ''d'' ''i'' None (Some ''k'') (Some [Item ''e'' ''i'' None None None])] None =
     [Item ''a'' ''i'' None (Some ''/0'')
        (Some [Item ''b'' ''i'' None (Some ''x'') None, Item ''c'' ''i'' None (Some ''/0/1'') None]),
      Item ''d'' ''i'' None (Some ''k'') (Some [Item ''e'' ''i'' None (Some ''k/0'') None])] \<and>
   updateItemIDs
     [Item ''a'' ''i'' None (Some ''/0'')
        (Some [Item ''b'' ''i'' None (Some ''x'') None, Item ''c'' ''i'' None (Some ''/0/1'') None]),
      Item ''d'' ''i'' None (Some ''k'') (Some [Item ''e'' ''i'' None (Some ''k/0'') None])] None =
     [Item ''a'' ''i'' None (Some ''/0'')
        (Some [Item ''b'' ''i'' None (Some ''x'') None, Item ''c'' ''i'' None (Some ''/0/1'') None]),
      Item ''d'' ''i'' None (Some ''k'') (Some [Item ''e'' ''i'' None (Some ''k/0'') None])] \<and>
   item_id (updateItemIDs
     [leaf ''a'' None, leaf ''b'' None, leaf ''c'' None, leaf ''d'' None, leaf ''e'' None, leaf ''f'' None,
      leaf ''g'' None, leaf ''h'' None, leaf ''i'' None, leaf ''j'' None, leaf ''k'' None] (Some ''/3'') ! 10) =
     Some ''/3/10''"
proof -
  let ?t = "[Item ''a'' ''i'' None None
        (Some [Item ''b'' ''i'' None (Some ''x'') None, Item ''c'' ''i'' None None None]),
      Item ''d'' ''i'' None (Some ''k'') (Some [Item ''e'' ''i'' None None None])]"
  let ?l = "[leaf ''a'' None, leaf ''b'' None, leaf ''c'' None, leaf ''d'' None, leaf ''e'' None, leaf ''f'' None,
      leaf ''g'' None, leaf ''h'' None, leaf ''i'' None, leaf ''j'' None, leaf ''k'' None]"
  have d: "is_decimal_of ''10'' 10"
    by (simp add: is_decimal_of_def is_digit_def decimal_value_def digit_value_def)
  have i: "10 < length ?l" "\<not> truthy_str (item_id (?l ! 10))"
    by (simp_all add: leaf_def truthy_str_def)
  have a: "item_id (updateItemIDs ?l (Some ''/3'') ! 10) = Some ''/3/10''"
    using assign_ids_idempotent [of ?l "Some ''/3''"] i d by auto
  have b: "updateItemIDs ?t None =
     [Item ''a'' ''i'' None (Some ''/0'')
        (Some [Item ''b'' ''i'' None (Some ''x'') None, Item ''c'' ''i'' None (Some ''/0/1'') None]),
      Item ''d'' ''i'' None (Some ''k'') (Some [Item ''e'' ''i'' None (Some ''k/0'') None])]"
    by (simp add: updateItemIDs_def Let_def truthy_str_def newID_def string_of_nat_digit digit_char_def)
  from a b assign_ids_idempotent [of ?t None] show ?thesis by simp
qed

section \<open>Properties of the shortcut reconciliation\<close>

lemma set_requiredShortcuts:
  "set (requiredShortcuts cs new) = set new \<union> desired cs"
  by (induction cs arbitrary: new) (auto simp: desired_def set_add_def)

lemma distinct_requiredShortcuts:
  "distinct new \<Longrightarrow> distinct (requiredShortcuts cs new)"
  by (induction cs arbitrary: new) (auto simp: set_add_def)

lemma unbindObsolete_eq:
  "distinct es \<Longrightarrow>
   unbindObsolete es new calls =
     (filter (\<lambda>s. s \<notin> set es) new, calls @ map Unbind (filter (\<lambda>s. s \<notin> set new) es))"
proof (induction es arbitrary: new calls)
  case Nil then show ?case by simp
next
  case (Cons e es)
  have a: "filter (\<lambda>s. s \<notin> set es) (removeAll e new) = filter (\<lambda>s. s \<noteq> e \<and> s \<notin> set es) new"
    by (induction new) auto
  have b: "filter (\<lambda>s. s \<notin> set (removeAll e new)) es = filter (\<lambda>s. s \<notin> set new) es"
    using Cons.prems by (intro filter_cong) auto
  have c: "e \<notin> set new \<Longrightarrow> filter (\<lambda>s. s \<noteq> e \<and> s \<notin> set es) new = filter (\<lambda>s. s \<notin> set es) new"
    by (intro filter_cong) auto
  from Cons.prems have d: "distinct es" by simp
  show ?case
  proof (cases "e \<in> set new")
    case True
    then have "unbindObsolete (e # es) new calls = unbindObsolete es (removeAll e new) calls"
      by (simp add: set_delete_def)
    also have "\<dots> = (filter (\<lambda>s. s \<notin> set es) (removeAll e new),
                     calls @ map Unbind (filter (\<lambda>s. s \<notin> set (removeAll e new)) es))"
      by (rule Cons.IH [OF d])
    also have "\<dots> = (filter (\<lambda>s. s \<noteq> e \<and> s \<notin> set es) new,
                     calls @ map Unbind (filter (\<lambda>s. s \<notin> set new) es))"
      by (simp only: a b)
    finally show ?thesis using True by simp
  next
    case False
    then show ?thesis by (simp add: Cons.IH [OF d] c)
  qed
qed

lemma onMenuConfigsChanged_eq:
  "distinct bound \<Longrightarrow>
   onMenuConfigsChanged menuConfigs bound =
     map Unbind (filter (\<lambda>s. s \<notin> desired menuConfigs) bound) @
     map Bind (filter (\<lambda>s. s \<notin> set bound) (requiredShortcuts menuConfigs []))"
  by (simp add: onMenuConfigsChanged_def unbindObsolete_eq set_requiredShortcuts)

text \<open>
  C8: for a bound set without repetition, the calls of \<open>unbind\<close> are exactly the bound
  shortcuts that are not desired, the calls of \<open>bind\<close> exactly the desired shortcuts that
  are not bound, a shortcut that is both bound and desired gets no call, and no call is
  made twice.
\<close>

theorem reconciler_diff:
  assumes "distinct bound"
  shows "{s. Unbind s \<in> set (onMenuConfigsChanged menuConfigs bound)} = set bound - desired menuConfigs \<and>
         {s. Bind s \<in> set (onMenuConfigsChanged menuConfigs bound)} = desired menuConfigs - set bound \<and>
         (\<forall>s \<in> set bound \<inter> desired menuConfigs.
            Bind s \<notin> set (onMenuConfigsChanged menuConfigs bound) \<and>
            Unbind s \<notin> set (onMenuConfigsChanged menuConfigs bound)) \<and>
         distinct (onMenuConfigsChanged menuConfigs bound)"
proof -
  let ?r = "requiredShortcuts menuConfigs []"
  have d: "distinct ?r" by (simp add: distinct_requiredShortcuts)
  have s: "set ?r = desired menuConfigs" by (simp add: set_requiredShortcuts)
  show ?thesis
    unfolding onMenuConfigsChanged_eq [OF assms]
    using assms d s by (auto simp: distinct_map inj_on_def)
qed

theorem reconciler_diff_witness:
  "distinct [''A'', ''B''] \<and>
   onMenuConfigsChanged
     [\<lparr>config_name = ''m1'', config_data = ''B''\<rparr>, \<lparr>config_name = ''m2'', config_data = ''''\<rparr>,
      \<lparr>config_name = ''m3'', config_data = ''C''\<rparr>, \<lparr>config_name = ''m4'', config_data = ''B''\<rparr>]
     [''A'', ''B''] = [Unbind ''A'', Bind ''C''] \<and>
   {s. Unbind s \<in> set [Unbind ''A'', Bind ''C'']} = {''A'', ''B''} - {''B'', ''C''}"
  using reconciler_diff [of "[''A'', ''B'']"
     "[\<lparr>config_name = ''m1'', config_data = ''B''\<rparr>, \<lparr>config_name = ''m2'', config_data = ''''\<rparr>,
      \<lparr>config_name = ''m3'', config_data = ''C''\<rparr>, \<lparr>config_name = ''m4'', config_data = ''B''\<rparr>]"]
  by (auto simp: onMenuConfigsChanged_def set_add_def set_delete_def desired_def)

section \<open>Evaluation on concrete menus\<close>

text \<open>The defining equations that the simplifier needs to run the model on a given menu.\<close>

lemmas layout_eval =
  updateItemAngles.simps childParentAngle_def layoutLevel_def truthy_num_def
  parentCollides_def firstAngle_def wedges.simps wedge_def wedgeLoop.simps Let_def js_rem_def

lemmas ids_eval =
  updateItemIDs_def truthy_str_def newID_def string_of_nat_digit digit_char_def

lemmas show_eval =
  menu_show_def menu_hide_def openCustomMenu_def newDaemon_def newMenu_def
  truthy_int_def hasRootItems_def

section \<open>Properties of the menu session and of the layout\<close>

text \<open>A menu whose id is not \<open>0\<close> is guarded: a further call changes nothing.\<close>

lemma show_while_active_nonzero:
  "menuID m = Some n \<Longrightarrow> n \<noteq> 0 \<Longrightarrow> menu_show m i s e g = (Inl eAlreadyActive, m)"
  by (simp add: menu_show_def truthy_int_def)

text \<open>
  C1: the claim is that a call of \<open>show\<close> while a menu is shown returns
  \<open>eAlreadyActive\<close> and leaves the state as it is. The first id that the daemon hands out
  is \<open>0\<close>. After the first menu has been opened with it, a second request is not rejected:
  it returns the id \<open>1\<close> and replaces the stored id, tree and edit mode.
\<close>

theorem first_session_not_guarded:
  "openCustomMenu newDaemon (node ''root'' None [leaf ''a'' None]) False True =
     (Inr 0,
      \<lparr>nextID = 1,
       menu = \<lparr>menuID = Some 0,
               menuStructure = Item ''root'' [] None None (Some [Item ''a'' [] (Some 90) (Some ''/0'') None]),
               editMode = False\<rparr>\<rparr>) \<and>
   openCustomMenu
     \<lparr>nextID = 1,
      menu = \<lparr>menuID = Some 0,
              menuStructure = Item ''root'' [] None None (Some [Item ''a'' [] (Some 90) (Some ''/0'') None]),
              editMode = False\<rparr>\<rparr>
     (node ''other'' None [leaf ''b'' None]) True True =
     (Inr 1,
      \<lparr>nextID = 2,
       menu = \<lparr>menuID = Some 1,
               menuStructure = Item ''other'' [] None None (Some [Item ''b'' [] (Some 90) (Some ''/0'') None]),
               editMode = True\<rparr>\<rparr>)"
  by (simp add: show_eval layout_eval ids_eval leaf_def node_def)

text \<open>
  C2: the claim is that invalid fixed angles at any level make the layout fail and
  \<open>show\<close> return \<open>eInvalidAngles\<close>. Here the children of the only top-level item carry
  the fixed angles 200 and 100, which the layout of that level rejects; the layout of the
  whole menu succeeds all the same, the children keep their angles, and \<open>show\<close> returns
  the id of the menu.
\<close>

theorem child_failure_swallowed:
  "fst (updateItemAngles [leaf ''x'' (Some 200), leaf ''y'' (Some 100)] (Some 270)) = False \<and>
   updateItemAngles [node ''a'' None [leaf ''x'' (Some 200), leaf ''y'' (Some 100)]] None =
     (True, [node ''a'' (Some 90) [leaf ''x'' (Some 200), leaf ''y'' (Some 100)]]) \<and>
   fst (menu_show newMenu 1
          (node ''root'' None [node ''a'' None [leaf ''x'' (Some 200), leaf ''y'' (Some 100)]])
          False True) = Inr 1"
  by (simp add: show_eval layout_eval ids_eval leaf_def node_def)

text \<open>
  The check against the parent angle, where it is made: a parent angle other than \<open>0\<close>
  and a collected fixed angle whose plain difference to it is less than one degree.
\<close>

lemma parent_collision_detected:
  assumes "truthy_num p" "f \<in> set (collectFixed items 0)" "\<bar>angle f - the p\<bar> < 1"
  shows "updateItemAngles items p = (False, items)"
proof -
  from assms(2) have ne: "items \<noteq> []" by auto
  have "parentCollides (collectFixed items 0) p"
    using assms by (auto simp: parentCollides_def list_ex_iff)
  then have "layoutLevel items p = (False, items)" by (simp add: layoutLevel_def Let_def)
  with ne show ?thesis by (subst updateItemAngles.simps) simp
qed

text \<open>
  C4: the claim is that a fixed angle less than one degree away from the parent angle
  makes the layout fail, also for the parent angle \<open>0\<close> and across the turn from 360 to
  \<open>0\<close>. A fixed angle of 0.5 with the parent angle \<open>0\<close>, and a fixed angle of 359.5 with the
  parent angle 0.2, are both accepted.
\<close>

theorem parent_collision_missed:
  "updateItemAngles [leaf ''x'' (Some (1/2))] (Some 0) = (True, [leaf ''x'' (Some (1/2))]) \<and>
   updateItemAngles [leaf ''x'' (Some (719/2))] (Some (1/5)) = (True, [leaf ''x'' (Some (719/2))])"
  by (simp add: layout_eval leaf_def)

text \<open>
  C5: the claim is that without any fixed angle the first item is put at 270 degrees
  whenever a parent angle below 180 is given, \<open>0\<close> included. With the parent angle \<open>0\<close> the
  first item is put at 90 degrees.
\<close>

theorem first_angle_parent_zero:
  "updateItemAngles [leaf ''x'' None, leaf ''y'' None] (Some 0) =
     (True, [leaf ''x'' (Some 90), leaf ''y'' (Some 210)])"
  by (simp add: layout_eval leaf_def)

text \<open>The validation loop accepts exactly the strictly increasing lists within \<open>[0, 360)\<close>.\<close>

lemma fixedAnglesValid_Some:
  "fixedAnglesValid (Some p) fs \<longleftrightarrow>
     sorted_wrt (<) (p # map angle fs) \<and> (\<forall>a \<in> set (map angle fs). 0 \<le> a \<and> a < 360)"
  by (induction fs arbitrary: p) (auto simp: not_le)

lemma fixedAnglesValid_None:
  "fixedAnglesValid None fs \<longleftrightarrow>
     sorted_wrt (<) (map angle fs) \<and> (\<forall>a \<in> set (map angle fs). 0 \<le> a \<and> a < 360)"
  by (cases fs) (auto simp: fixedAnglesValid_Some not_le)

lemma layoutLevel_invalid:
  "\<not> fixedAnglesValid None (collectFixed items 0) \<Longrightarrow> layoutLevel items p = (False, items)"
  by (simp add: layoutLevel_def)

text \<open>
  C6: when the collected fixed angles, in list order, are not strictly increasing or one
  of them is outside \<open>[0, 360)\<close>, the layout fails, whatever the parent angle, and no item
  is changed.
\<close>

theorem angle_conflict:
  assumes "\<not> (sorted_wrt (<) (map angle (collectFixed items 0)) \<and>
              (\<forall>a \<in> set (map angle (collectFixed items 0)). 0 \<le> a \<and> a < 360))"
  shows "updateItemAngles items parentAngle = (False, items)"
proof -
  from assms have inv: "\<not> fixedAnglesValid None (collectFixed items 0)"
    by (simp add: fixedAnglesValid_None)
  then have "items \<noteq> []" by auto
  with inv show ?thesis
    by (subst updateItemAngles.simps) (simp add: layoutLevel_invalid)
qed

theorem angle_conflict_witness:
  "updateItemAngles [leaf ''x'' (Some 200), leaf ''y'' None, leaf ''z'' (Some 100)] (Some 45) =
     (False, [leaf ''x'' (Some 200), leaf ''y'' None, leaf ''z'' (Some 100)])"
proof -
  have h: "\<not> (sorted_wrt (<) (map angle (collectFixed [leaf ''x'' (Some 200), leaf ''y'' None, leaf ''z'' (Some 100)] 0)) \<and>
      (\<forall>a \<in> set (map angle (collectFixed [leaf ''x'' (Some 200), leaf ''y'' None, leaf ''z'' (Some 100)] 0)).
          0 \<le> a \<and> a < 360))"
    by (simp add: leaf_def truthy_num_def)
  from angle_conflict [OF h, of "Some 45"] show ?thesis .
qed

text \<open>A failing layout has written nothing.\<close>

lemma layoutLevel_False: "layoutLevel items p = (False, r) \<Longrightarrow> r = items"
  by (auto simp: layoutLevel_def Let_def split: if_splits prod.splits)

lemma updateItemAngles_False:
  "\<not> fst (updateItemAngles items p) \<Longrightarrow> snd (updateItemAngles items p) = items"
  by (subst (asm) updateItemAngles.simps, subst updateItemAngles.simps)
     (auto split: if_splits prod.splits bool.splits dest: layoutLevel_False)

lemma set_items_same: "item_items s = Some l \<Longrightarrow> set_items (Some l) s = s"
  by (cases s) simp

text \<open>
  C7, as amended: take a request that is made while no menu is shown, or while a menu
  with an id other than \<open>0\<close> is shown, and that ends in an error. The stored menu id is as
  it was. If a menu was shown, the error is \<open>eAlreadyActive\<close> and the whole state is as it
  was. Otherwise \<open>ePropertyMissing\<close> leaves the whole state as it was, while
  \<open>eInvalidAngles\<close> and \<open>eUnknownError\<close> are returned after the tree and the edit mode of
  the request have been stored: the state then holds the tree of the failing request, as
  given for \<open>eInvalidAngles\<close> and with its angles and ids assigned for \<open>eUnknownError\<close>.
\<close>

theorem request_error_state:
  assumes "menu_show m i s e g = (Inl err, m')" and "menuID m \<noteq> Some 0"
  shows "menuID m' = menuID m \<and>
         (menuID m \<noteq> None \<longrightarrow> err = eAlreadyActive \<and> m' = m) \<and>
         (err = eAlreadyActive \<or> err = ePropertyMissing \<longrightarrow> m' = m) \<and>
         (err = eInvalidAngles \<longrightarrow> m' = m\<lparr>menuStructure := s, editMode := e\<rparr>) \<and>
         (err = eUnknownError \<longrightarrow>
            m' = m\<lparr>menuStructure :=
                     set_items (Some (updateItemIDs (snd (updateItemAngles (the (item_items s)) None)) None)) s,
                   editMode := e\<rparr>)"
proof (cases "truthy_int (menuID m)")
  case True
  with assms show ?thesis by (simp add: menu_show_def)
next
  case idle: False
  with assms(2) have none: "menuID m = None"
    by (auto simp: truthy_int_def split: option.splits)
  show ?thesis
  proof (cases "hasRootItems s")
    case False
    with idle none assms show ?thesis by (simp add: menu_show_def)
  next
    case True
    then obtain l where l: "item_items s = Some l"
      by (auto simp: hasRootItems_def split: option.splits)
    show ?thesis
    proof (cases "fst (updateItemAngles l None)")
      case False
      then have "snd (updateItemAngles l None) = l" by (rule updateItemAngles_False)
      with False idle none True l assms show ?thesis
        by (cases s) (auto simp: menu_show_def Let_def split: prod.splits)
    next
      case ok: True
      with idle none True l assms show ?thesis
        by (cases s) (auto simp: menu_show_def Let_def split: prod.splits if_splits)
    qed
  qed
qed

text \<open>
  C7, as stated, fails: a menu is shown and hidden, which leaves its tree stored; the next
  request has invalid fixed angles and returns \<open>eInvalidAngles\<close>, and the stored tree is
  now the tree of that request.
\<close>

theorem stored_tree_replaced_on_error:
  "menuID (menu_hide (snd (menu_show newMenu 1 (node ''root'' None [leaf ''a'' None]) False True))) = None \<and>
   menuStructure (menu_hide (snd (menu_show newMenu 1 (node ''root'' None [leaf ''a'' None]) False True))) =
     node ''root'' None [Item ''a'' [] (Some 90) (Some ''/0'') None] \<and>
   menu_show (menu_hide (snd (menu_show newMenu 1 (node ''root'' None [leaf ''a'' None]) False True))) 2
     (node ''next'' None [leaf ''x'' (Some 200), leaf ''y'' (Some 100)]) True True =
     (Inl eInvalidAngles,
      \<lparr>menuID = None,
       menuStructure = node ''next'' None [leaf ''x'' (Some 200), leaf ''y'' (Some 100)],
       editMode = True\<rparr>)"
  by (simp add: show_eval layout_eval ids_eval leaf_def node_def)

theorem request_error_state_witness:
  "menu_show \<lparr>menuID = None, menuStructure = node ''root'' None [Item ''a'' [] (Some 90) (Some ''/0'') None],
              editMode = False\<rparr> 2
     (node ''next'' None [leaf ''x'' None]) True False =
     (Inl eUnknownError,
      \<lparr>menuID = None,
       menuStructure = node ''next'' None [Item ''x'' [] (Some 90) (Some ''/0'') None],
       editMode = True\<rparr>) \<and>
   menuID \<lparr>menuID = None, menuStructure = node ''root'' None [Item ''a'' [] (Some 90) (Some ''/0'') None],
              editMode = False\<rparr> = None"
proof -
  have h: "menu_show \<lparr>menuID = None, menuStructure = node ''root'' None [Item ''a'' [] (Some 90) (Some ''/0'') None],
              editMode = False\<rparr> 2
     (node ''next'' None [leaf ''x'' None]) True False =
     (Inl eUnknownError,
      \<lparr>menuID = None,
       menuStructure = node ''next'' None [Item ''x'' [] (Some 90) (Some ''/0'') None],
       editMode = True\<rparr>)"
    by (simp add: show_eval layout_eval ids_eval leaf_def node_def)
  have i: "menuID \<lparr>menuID = None, menuStructure = node ''root'' None [Item ''a'' [] (Some 90) (Some ''/0'') None],
              editMode = False\<rparr> \<noteq> Some 0" by simp
  from request_error_state [OF h i] h show ?thesis by simp
qed

text \<open>The layout of a level without fixed angles.\<close>

lemma collectFixed_none:
  "\<forall>x \<in> set items. \<not> truthy_num (item_angle x) \<Longrightarrow> collectFixed items i = []"
  by (induction items arbitrary: i) auto

lemma js_rem_360:
  "0 \<le> x \<Longrightarrow> x < 360 \<Longrightarrow> js_rem x 360 = x"
  "360 \<le> x \<Longrightarrow> x < 720 \<Longrightarrow> js_rem x 360 = x - 360"
proof -
  assume a: "0 \<le> x" "x < 360"
  then have "0 \<le> x / 360" "x / 360 < 1" by simp_all
  then have "\<not> x / 360 < 0" "\<lfloor>x / 360\<rfloor> = 0" by (simp_all add: floor_eq_iff)
  then show "js_rem x 360 = x" by (simp add: js_rem_def)
next
  assume a: "360 \<le> x" "x < 720"
  then have "1 \<le> x / 360" "x / 360 < 2" by simp_all
  then have "\<not> x / 360 < 0" "\<lfloor>x / 360\<rfloor> = 1" by (simp_all add: floor_eq_iff)
  then show "js_rem x 360 = x - 360" by (simp add: js_rem_def)
qed

lemma wedgeLoop_to_zero:
  assumes "0 < i" "i \<le> length items"
  shows "\<forall>k < length items.
           wedgeLoop (i mod length items) c False 0 b w p items ! k =
             (if i \<le> k then set_angle (js_rem (b + w * of_nat (c + (k - i))) 360) (items ! k)
              else items ! k)"
  using assms
proof (induction "length items - i" arbitrary: i c items)
  case 0
  then have "i mod length items = 0" by simp
  then show ?case using 0 by (simp add: wedgeLoop_done)
next
  case (Suc d)
  then have i: "i < length items" "i mod length items = i" "i \<noteq> 0" by simp_all
  let ?items = "items[i := set_angle (js_rem (b + w * of_nat c) 360) (items ! i)]"
  have "i \<noteq> 0" "0 < length items" using i by auto
  then have "wedgeLoop i c False 0 b w p items =
             wedgeLoop ((i + 1) mod length items) (c + 1) False 0 b w p ?items"
    by (subst wedgeLoop_step) simp_all
  then have step: "wedgeLoop (i mod length items) c False 0 b w p items =
              wedgeLoop (Suc i mod length ?items) (Suc c) False 0 b w p ?items"
    using i by simp
  have IH: "\<forall>k < length ?items.
           wedgeLoop (Suc i mod length ?items) (Suc c) False 0 b w p ?items ! k =
             (if Suc i \<le> k then set_angle (js_rem (b + w * of_nat (Suc c + (k - Suc i))) 360) (?items ! k)
              else ?items ! k)"
    using Suc.hyps(2) Suc.prems i by (intro Suc.hyps(1)) simp_all
  show ?case
  proof (intro allI impI)
    fix k assume k: "k < length items"
    consider "k < i" | "k = i" | "i < k" by linarith
    then show "wedgeLoop (i mod length items) c False 0 b w p items ! k =
             (if i \<le> k then set_angle (js_rem (b + w * of_nat (c + (k - i))) 360) (items ! k)
              else items ! k)"
    proof cases
      case 1
      with IH k show ?thesis unfolding step by simp
    next
      case 2
      with IH k i show ?thesis unfolding step by simp
    next
      case 3
      then have "Suc c + (k - Suc i) = c + (k - i)" by simp
      with 3 IH k show ?thesis unfolding step by simp
    qed
  qed
qed

lemma wedges_single:
  "wedges 0 [f] st = wedge 0 [f] st"
  by (simp add: wedges.simps [of 0] wedges.simps [of "Suc 0"])

lemma layoutLevel_unfixed:
  assumes "items \<noteq> []" "\<forall>x \<in> set items. \<not> truthy_num (item_angle x)"
  shows "layoutLevel items parentAngle =
           (True, fst (wedge 0 [\<lparr>angle = firstAngle parentAngle, index = 0\<rparr>]
                         (items[0 := set_angle (firstAngle parentAngle) (items ! 0)], parentAngle)))"
  using assms by (simp add: layoutLevel_def collectFixed_none parentCollides_def wedges_single)

lemma wedge_unfixed_no_parent:
  assumes "items \<noteq> []"
  shows "fst (wedge 0 [\<lparr>angle = 90, index = 0\<rparr>] (items, None)) =
           wedgeLoop (1 mod length items) 1 False 0 90 (360 / of_nat (length items)) None items"
proof -
  have n: "0 < int (length items)" using assms by simp
  have "- 1 mod int (length items) = int (length items) - 1"
    using n by (simp add: zmod_minus1)
  then show ?thesis by (simp add: wedge_def Let_def)
qed

lemma wedgeLoop_end_untouched:
  "wedgeLoop i c g e b w p items ! e = items ! e"
proof (induction i c g e b w p items rule: wedgeLoop_induct)
  case (stop i c g e b w p items)
  then show ?case by (simp add: wedgeLoop_done)
next
  case (step i c g e b w p items)
  then show ?case by (simp add: wedgeLoop_step)
qed

lemma wedge_length [simp]: "length (fst (wedge i fs (items, p))) = length items"
  by (simp add: wedge_def Let_def)

lemma first_angle_synthesized:
  assumes "items \<noteq> []" "\<forall>x \<in> set items. \<not> truthy_num (item_angle x)"
  shows "snd (layoutLevel items parentAngle) ! 0 = set_angle (firstAngle parentAngle) (items ! 0)"
  using assms
  by (simp add: layoutLevel_unfixed wedge_def Let_def wedgeLoop_end_untouched)

lemma set_items_sel [simp]:
  "item_angle (set_items cs x) = item_angle x"
  "item_name (set_items cs x) = item_name x"
  "item_icon (set_items cs x) = item_icon x"
  "item_id (set_items cs x) = item_id x"
  "item_items (set_items cs x) = cs"
  by (cases x; simp)+

lemma updateItemAngles_angles:
  "items \<noteq> [] \<Longrightarrow>
   map item_angle (snd (updateItemAngles items p)) = map item_angle (snd (layoutLevel items p))"
  by (subst updateItemAngles.simps)
     (auto split: prod.splits bool.splits option.splits)

lemma updateItemAngles_ok:
  "fst (updateItemAngles items p) = (items = [] \<or> fst (layoutLevel items p))"
  by (subst updateItemAngles.simps) (auto split: prod.splits bool.splits)

lemma unfixed_angles:
  assumes "items \<noteq> []" "\<forall>x \<in> set items. \<not> truthy_num (item_angle x)" "k < length items"
  shows "item_angle (snd (layoutLevel items None) ! k) =
           Some (js_rem (90 + 360 / of_nat (length items) * of_nat k) 360)"
proof -
  let ?items = "items[0 := set_angle 90 (items ! 0)]"
  have ll: "snd (layoutLevel items None) =
        wedgeLoop (1 mod length ?items) 1 False 0 90 (360 / of_nat (length items)) None ?items"
    using assms(1,2) wedge_unfixed_no_parent [of ?items]
    by (simp add: layoutLevel_unfixed firstAngle_def truthy_num_def)
  have "0 < (1::nat)" "1 \<le> length ?items" using assms(1) by (simp_all add: Suc_le_eq)
  from wedgeLoop_to_zero [OF this, of 1 90 "360 / of_nat (length items)" None] assms(3)
  have nth: "snd (layoutLevel items None) ! k =
               (if 1 \<le> k
                then set_angle (js_rem (90 + 360 / of_nat (length items) * of_nat (1 + (k - 1))) 360) (?items ! k)
                else ?items ! k)"
    unfolding ll by simp
  show ?thesis
  proof (cases k)
    case 0
    with nth assms(1) show ?thesis by (simp add: js_rem_360)
  next
    case (Suc j)
    with nth show ?thesis by simp
  qed
qed

lemma even_gap_bounds:
  fixes k n :: nat
  assumes "k < n"
  shows "0 \<le> 360 / real n * real k" "360 / real n * real k < 360"
proof -
  have n: "0 < real n" using assms by simp
  show "0 \<le> 360 / real n * real k" by simp
  have "real k / real n < 1" using assms n by simp
  then have "360 * (real k / real n) < 360 * 1" by (intro mult_strict_left_mono) simp_all
  then show "360 / real n * real k < 360" by simp
qed

lemma even_gap_mono:
  fixes i j n :: nat
  assumes "i < j" "j < n"
  shows "360 / real n * real i < 360 / real n * real j"
proof -
  have "0 < 360 / real n" using assms by simp
  then show ?thesis using assms(1) by (intro mult_strict_left_mono) simp_all
qed

lemma even_angle_closed:
  fixes k n :: nat
  assumes "k < n"
  shows "js_rem (90 + 360 / real n * real k) 360 =
           (if 90 + 360 / real n * real k < 360 then 90 + 360 / real n * real k
            else 90 + 360 / real n * real k - 360)"
  using even_gap_bounds [OF assms] by (simp add: js_rem_360)

lemma wrap_inj:
  fixes x y :: real
  assumes "0 \<le> x" "x < y" "y < 360"
  shows "(if 90 + x < 360 then 90 + x else 90 + x - 360) \<noteq>
         (if 90 + y < 360 then 90 + y else 90 + y - 360)"
  using assms by auto

lemma even_angle_inj:
  fixes i j n :: nat
  assumes "i < j" "j < n"
  shows "(if 90 + 360 / real n * real i < 360 then 90 + 360 / real n * real i
          else 90 + 360 / real n * real i - 360) \<noteq>
         (if 90 + 360 / real n * real j < 360 then 90 + 360 / real n * real j
          else 90 + 360 / real n * real j - 360)"
proof -
  from assms have i: "i < n" by simp
  show ?thesis
    by (rule wrap_inj [OF even_gap_bounds(1) [OF i] even_gap_mono [OF assms]
          even_gap_bounds(2) [OF assms(2)]])
qed

text \<open>
  C3: for a non-empty list of \<open>n\<close> items without a fixed angle (the angle is absent or
  \<open>0\<close>) and no parent angle, the layout succeeds; the item at index \<open>k\<close> gets the angle
  \<open>90 + k * 360 / n\<close>, reduced by 360 when it reaches 360, so the angles start at 90 and
  are evenly spaced by \<open>360 / n\<close>; they are pairwise distinct; and for three items
  they are 90, 210 and 330.
\<close>

theorem even_spacing:
  assumes "items \<noteq> []" and "\<forall>x \<in> set items. \<not> truthy_num (item_angle x)"
  shows "fst (updateItemAngles items None) \<and>
         length (snd (updateItemAngles items None)) = length items \<and>
         (\<forall>k < length items.
            item_angle (snd (updateItemAngles items None) ! k) =
              Some (if 90 + 360 / real (length items) * real k < 360
                    then 90 + 360 / real (length items) * real k
                    else 90 + 360 / real (length items) * real k - 360)) \<and>
         distinct (map item_angle (snd (updateItemAngles items None))) \<and>
         (length items = 3 \<longrightarrow>
            map item_angle (snd (updateItemAngles items None)) = [Some 90, Some 210, Some 330])"
proof -
  let ?r = "snd (updateItemAngles items None)"
  let ?n = "length items"
  let ?a = "\<lambda>k. if 90 + 360 / real ?n * real k < 360 then 90 + 360 / real ?n * real k
                 else 90 + 360 / real ?n * real k - 360"
  have ok: "fst (updateItemAngles items None)"
    using assms by (simp add: updateItemAngles_ok layoutLevel_unfixed)
  have map_eq: "map item_angle ?r = map item_angle (snd (layoutLevel items None))"
    using assms(1) by (rule updateItemAngles_angles)
  have "length (map item_angle ?r) = ?n"
    unfolding map_eq using assms by (simp add: layoutLevel_unfixed)
  then have len: "length ?r = ?n" by simp
  have nth: "item_angle (?r ! k) = Some (?a k)" if k: "k < ?n" for k
  proof -
    have "item_angle (?r ! k) = map item_angle ?r ! k" using k len by simp
    also have "\<dots> = item_angle (snd (layoutLevel items None) ! k)"
      unfolding map_eq using k len map_eq by (metis length_map nth_map)
    also have "\<dots> = Some (js_rem (90 + 360 / real ?n * real k) 360)"
      using assms k by (rule unfixed_angles)
    also have "\<dots> = Some (?a k)" using even_angle_closed [OF k] by simp
    finally show ?thesis .
  qed
  have dist: "distinct (map item_angle ?r)"
  proof (subst distinct_conv_nth, intro allI impI)
    fix i j assume ij: "i < length (map item_angle ?r)" "j < length (map item_angle ?r)" "i \<noteq> j"
    then have i: "i < ?n" and j: "j < ?n" using len by simp_all
    have "?a i \<noteq> ?a j"
    proof (cases "i < j")
      case True
      then show ?thesis using even_angle_inj [OF True j] by simp
    next
      case False
      with ij(3) have "j < i" by simp
      then show ?thesis using even_angle_inj [OF \<open>j < i\<close> i] by simp
    qed
    then show "map item_angle ?r ! i \<noteq> map item_angle ?r ! j"
      using nth [OF i] nth [OF j] i j len by simp
  qed
  have three: "map item_angle ?r = [Some 90, Some 210, Some 330]" if n: "?n = 3"
  proof (rule nth_equalityI)
    show "length (map item_angle ?r) = length [Some 90, Some 210, Some (330::real)]"
      using len n by simp
  next
    fix k assume "k < length (map item_angle ?r)"
    then have k: "k < 3" using len n by simp
    then consider "k = 0" | "k = 1" | "k = 2" by linarith
    then show "map item_angle ?r ! k = [Some 90, Some 210, Some 330] ! k"
    proof cases
      case 1
      then show ?thesis using nth [of 0] len n by simp
    next
      case 2
      then show ?thesis using nth [of 1] len n by simp
    next
      case 3
      then show ?thesis using nth [of 2] len n by simp
    qed
  qed
  from ok len nth dist three show ?thesis by blast
qed

theorem even_spacing_witness:
  "fst (updateItemAngles [leaf ''a'' None, leaf ''b'' (Some 0), leaf ''c'' None] None) \<and>
   map item_angle (snd (updateItemAngles [leaf ''a'' None, leaf ''b'' (Some 0), leaf ''c'' None] None)) =
     [Some 90, Some 210, Some 330]"
proof -
  have h1: "[leaf ''a'' None, leaf ''b'' (Some 0), leaf ''c'' None] \<noteq> []" by simp
  have h2: "\<forall>x \<in> set [leaf ''a'' None, leaf ''b'' (Some 0), leaf ''c'' None]. \<not> truthy_num (item_angle x)"
    by (simp add: leaf_def truthy_num_def)
  from even_spacing [OF h1 h2] show ?thesis by simp
qed

section \<open>An angle of 0 is no fixed angle\<close>

text \<open>
  The loop of a wedge writes the indices it visits and nothing else, whatever angles the
  items had: two lists that agree outside \<open>K\<close> agree, after the loop, outside \<open>K\<close> without
  the visited indices.
\<close>

lemma circ_step:
  assumes "i \<noteq> e" "i < n" "e < n"
  shows "circ i e n = insert i (circ ((i + 1) mod n) e n)"
proof -
  consider "i < e" | "e < i" "i + 1 < n" | "e < i" "i + 1 = n"
    using assms by linarith
  then show ?thesis
  proof cases
    case 1
    then have "(i + 1) mod n = i + 1" using assms by simp
    with 1 show ?thesis by (auto simp: circ_def)
  next
    case 2
    then have "(i + 1) mod n = i + 1" by simp
    with 2 show ?thesis by (auto simp: circ_def)
  next
    case 3
    then have "(i + 1) mod n = 0" by simp
    with 3 show ?thesis by (auto simp: circ_def)
  qed
qed

lemma set_angle_twice [simp]: "set_angle a (set_angle a' x) = set_angle a x"
  by (cases x) simp

lemma agree_update:
  assumes "agree K xs ys" "i < length xs"
  shows "agree (K - {i}) (xs[i := set_angle a (xs ! i)]) (ys[i := set_angle a (ys ! i)])"
  using assms by (auto simp: agree_def nth_list_update)

lemma agree_length: "agree K xs ys \<Longrightarrow> length ys = length xs"
  by (simp add: agree_def)

lemma wedgeLoop_agree:
  assumes "agree K xs ys" "i < length xs" "e < length xs"
  shows "agree (K - circ i e (length xs))
           (wedgeLoop i c g e b w p xs) (wedgeLoop i c g e b w p ys)"
  using assms
proof (induction i c g e b w p xs arbitrary: K ys rule: wedgeLoop_induct)
  case (stop i c g e b w p items)
  then have "i = e" by simp
  then have "circ i e (length items) = {}" by (simp add: circ_def)
  moreover have "wedgeLoop i c g e b w p ys = ys"
    using \<open>i = e\<close> by (simp add: wedgeLoop_done)
  ultimately show ?case using stop \<open>i = e\<close> by (simp add: wedgeLoop_done)
next
  case (step i c g e b w p items)
  let ?n = "length items"
  have len: "length ys = ?n" using step.prems(1) by (rule agree_length)
  have "0 < ?n" using step.prems(2) by auto
  then have i': "(i + 1) mod ?n < ?n" by simp
  have K: "K - circ i e ?n = (K - {i}) - circ ((i + 1) mod ?n) e ?n"
    using circ_step [OF step.hyps(1) step.prems(2) step.hyps(2)] by auto
  show ?case
  proof (cases "g \<and> b + w * of_nat c + w / 2 - the p > 0")
    case True
    let ?a = "js_rem (b + w * of_nat (c + 1)) 360"
    have "agree (K - {i} - circ ((i + 1) mod ?n) e ?n)
            (wedgeLoop ((i + 1) mod ?n) (c + 2) False e b w p (items[i := set_angle ?a (items ! i)]))
            (wedgeLoop ((i + 1) mod ?n) (c + 2) False e b w p (ys[i := set_angle ?a (ys ! i)]))"
      using step.IH(1) [OF True, of "K - {i}" "ys[i := set_angle ?a (ys ! i)]"]
        agree_update [OF step.prems(1) step.prems(2), of ?a] i' step.hyps(2)
      by simp
    then show ?thesis
      using True step.hyps len K
      by (simp add: wedgeLoop_step [of i e items] wedgeLoop_step [of i e ys])
  next
    case False
    let ?a = "js_rem (b + w * of_nat c) 360"
    have "agree (K - {i} - circ ((i + 1) mod ?n) e ?n)
            (wedgeLoop ((i + 1) mod ?n) (c + 1) g e b w p (items[i := set_angle ?a (items ! i)]))
            (wedgeLoop ((i + 1) mod ?n) (c + 1) g e b w p (ys[i := set_angle ?a (ys ! i)]))"
      using step.IH(2) [OF False, of "K - {i}" "ys[i := set_angle ?a (ys ! i)]"]
        agree_update [OF step.prems(1) step.prems(2), of ?a] i' step.hyps(2)
      by simp
    then show ?thesis
      using False step.hyps len K
      by (auto simp: wedgeLoop_step [of i e items] wedgeLoop_step [of i e ys])
  qed
qed

lemma wedge_agree:
  assumes "agree K xs ys" "0 < length xs" "index (fs ! ((i + 1) mod length fs)) < length xs"
  shows "agree (K - wedgeSet i fs (length xs)) (fst (wedge i fs (xs, p))) (fst (wedge i fs (ys, p)))"
    and "snd (wedge i fs (xs, p)) = snd (wedge i fs (ys, p))"
proof -
  have len: "length ys = length xs" using assms(1) by (rule agree_length)
  have start: "(index (fs ! i) + 1) mod length xs < length xs" using assms(2) by simp
  show "agree (K - wedgeSet i fs (length xs)) (fst (wedge i fs (xs, p))) (fst (wedge i fs (ys, p)))"
    using wedgeLoop_agree [OF assms(1) start assms(3)]
    by (simp add: wedge_def Let_def len wedgeSet_def)
  show "snd (wedge i fs (xs, p)) = snd (wedge i fs (ys, p))"
    by (simp add: wedge_def Let_def len)
qed

lemma wedges_unfold:
  "i < length fs \<Longrightarrow> wedges i fs st = wedges (Suc i) fs (wedge i fs st)"
  "\<not> i < length fs \<Longrightarrow> wedges i fs st = st"
  by (subst wedges.simps, simp)+

lemma wedges_agree:
  assumes "agree K xs ys" "0 < length xs" "\<forall>f \<in> set fs. index f < length xs"
  shows "agree (K - (\<Union>l \<in> {i..<length fs}. wedgeSet l fs (length xs)))
           (fst (wedges i fs (xs, p))) (fst (wedges i fs (ys, p)))"
  using assms
proof (induction "length fs - i" arbitrary: i K xs ys p)
  case 0
  then have "\<not> i < length fs" by simp
  with 0 show ?case by (simp add: wedges_unfold)
next
  case (Suc d)
  then have i: "i < length fs" by simp
  then have "0 < length fs" by auto
  then have "(i + 1) mod length fs < length fs" by simp
  then have e: "index (fs ! ((i + 1) mod length fs)) < length xs"
    using Suc.prems(3) by simp
  obtain xs' p' where x: "wedge i fs (xs, p) = (xs', p')" by (cases "wedge i fs (xs, p)")
  obtain ys' p'' where y: "wedge i fs (ys, p) = (ys', p'')" by (cases "wedge i fs (ys, p)")
  from wedge_agree [OF Suc.prems(1,2) e, of p] x y
  have ag: "agree (K - wedgeSet i fs (length xs)) xs' ys'" and pp: "p'' = p'" by simp_all
  have len: "length xs' = length xs" using x wedge_length [of i fs xs p] by simp
  have "agree (K - wedgeSet i fs (length xs) - (\<Union>l \<in> {Suc i..<length fs}. wedgeSet l fs (length xs')))
           (fst (wedges (Suc i) fs (xs', p'))) (fst (wedges (Suc i) fs (ys', p')))"
    using Suc.hyps(2) Suc.prems(2,3) len by (intro Suc.hyps(1) ag) simp_all
  moreover have "{i..<length fs} = insert i {Suc i..<length fs}" using i by auto
  then have "K - (\<Union>l \<in> {i..<length fs}. wedgeSet l fs (length xs))
        = K - wedgeSet i fs (length xs) - (\<Union>l \<in> {Suc i..<length fs}. wedgeSet l fs (length xs))"
    by auto
  ultimately show ?case using i x y pp len by (simp add: wedges_unfold)
qed

lemma find_gap:
  fixes xs :: "nat list"
  assumes "xs \<noteq> []" "hd xs < k" "k < last xs" "k \<notin> set xs"
  shows "\<exists>l. Suc l < length xs \<and> xs ! l < k \<and> k < xs ! Suc l"
  using assms
proof (induction xs)
  case Nil
  then show ?case by simp
next
  case (Cons x xs)
  show ?case
  proof (cases xs)
    case Nil
    with Cons.prems show ?thesis by simp
  next
    case (Cons y ys)
    show ?thesis
    proof (cases "k < y")
      case True
      with Cons Cons.prems show ?thesis by (intro exI [of _ 0]) simp
    next
      case False
      with Cons Cons.prems have "hd xs < k" "k < last xs" "k \<notin> set xs" "xs \<noteq> []" by auto
      with Cons.IH obtain l where "Suc l < length xs" "xs ! l < k" "k < xs ! Suc l" by blast
      then show ?thesis by (intro exI [of _ "Suc l"]) simp
    qed
  qed
qed

lemma coverage:
  assumes "fs \<noteq> []" "sorted_wrt (<) (map index fs)" "\<forall>f \<in> set fs. index f < n"
    and "k < n" "k \<notin> index ` set fs"
  shows "\<exists>l < length fs. k \<in> wedgeSet l fs n"
proof -
  let ?is = "map index fs"
  let ?m = "length fs"
  have m: "0 < ?m" using assms(1) by simp
  let ?b = "index (fs ! (?m - 1))"
  let ?e = "index (fs ! 0)"
  have be: "?e \<le> ?b"
  proof (cases "?m - 1 = 0")
    case True
    then show ?thesis by simp
  next
    case False
    then have "0 < ?m - 1" "?m - 1 < length ?is" using m by simp_all
    with assms(2) have "?is ! 0 < ?is ! (?m - 1)" by (simp only: sorted_wrt_iff_nth_less)
    then show ?thesis using m by simp
  qed
  have bn: "?b < n" using assms(3) m by simp
  have last_wedge: "wedgeSet (?m - 1) fs n = circ ((?b + 1) mod n) ?e n"
    using m by (simp add: wedgeSet_def)
  have ne: "k \<noteq> ?e" "k \<noteq> ?b" using assms(5) m by (auto simp: image_iff)
  consider "k < ?e" | "?b < k" | "?e < k" "k < ?b" using ne by linarith
  then show ?thesis
  proof cases
    case 1
    have "k \<in> circ ((?b + 1) mod n) ?e n"
    proof (cases "?b + 1 < n")
      case True
      then have "(?b + 1) mod n = ?b + 1" by simp
      with 1 be show ?thesis by (simp add: circ_def)
    next
      case False
      with bn have "?b + 1 = n" by simp
      then have "(?b + 1) mod n = 0" by (simp only: mod_self)
      with 1 show ?thesis by (simp add: circ_def)
    qed
    with last_wedge m show ?thesis by (intro exI [of _ "?m - 1"]) simp
  next
    case 2
    with assms(4) have "(?b + 1) mod n = ?b + 1" by simp
    with 2 be assms(4) have "k \<in> circ ((?b + 1) mod n) ?e n" by (simp add: circ_def)
    with last_wedge m show ?thesis by (intro exI [of _ "?m - 1"]) simp
  next
    case 3
    have "hd ?is < k" "k < last ?is" "k \<notin> set ?is" "?is \<noteq> []"
      using 3 assms(1,5) m by (simp_all add: hd_conv_nth last_conv_nth)
    from find_gap [OF this(4) this(1,2,3)]
    obtain l where l: "Suc l < ?m" "index (fs ! l) < k" "k < index (fs ! Suc l)" by auto
    then have "(l + 1) mod ?m = Suc l" by simp
    moreover have "(index (fs ! l) + 1) mod n = index (fs ! l) + 1" using l assms(4) by simp
    ultimately have "k \<in> wedgeSet l fs n" using l by (simp add: wedgeSet_def circ_def)
    with l show ?thesis by (intro exI [of _ l]) simp
  qed
qed

lemma clearZero_sel [simp]:
  "item_name (clearZero x) = item_name x"
  "item_icon (clearZero x) = item_icon x"
  "item_id (clearZero x) = item_id x"
  "item_items (clearZero x) = item_items x"
  "truthy_num (item_angle (clearZero x)) = truthy_num (item_angle x)"
  "set_angle a (clearZero x) = set_angle a x"
  by (cases x; simp add: truthy_num_def)+

lemma clearZero_truthy: "truthy_num (item_angle x) \<Longrightarrow> clearZero x = x"
  by (cases x) (auto simp: truthy_num_def)

lemma collectFixed_map:
  assumes "\<And>x. truthy_num (item_angle x) \<Longrightarrow> h x = x"
    and "\<And>x. truthy_num (item_angle (h x)) = truthy_num (item_angle x)"
  shows "collectFixed (map h items) i = collectFixed items i"
  by (induction items arbitrary: i) (auto simp: assms)

lemma collectFixed_clearZero:
  "collectFixed (map clearZero items) i = collectFixed items i"
  by (rule collectFixed_map) (simp_all add: clearZero_truthy)

lemma collectFixed_nonzero:
  "f \<in> set (collectFixed items i) \<Longrightarrow> angle f \<noteq> 0"
  by (induction items arbitrary: i) (auto simp: truthy_num_def split: if_splits option.splits)

lemma collectFixed_index_bounds:
  "f \<in> set (collectFixed items i) \<Longrightarrow> i \<le> index f \<and> index f < i + length items"
proof (induction items arbitrary: i)
  case Nil
  then show ?case by simp
next
  case (Cons x xs)
  then show ?case by (fastforce split: if_splits)
qed

lemma collectFixed_index_less:
  "f \<in> set (collectFixed items 0) \<Longrightarrow> index f < length items"
  using collectFixed_index_bounds [of f items 0] by simp

lemma collectFixed_sorted:
  "sorted_wrt (<) (map index (collectFixed items i))"
proof (induction items arbitrary: i)
  case Nil
  then show ?case by simp
next
  case (Cons x xs)
  have "\<forall>f \<in> set (collectFixed xs (Suc i)). i < index f"
    by (auto dest!: collectFixed_index_bounds)
  with Cons show ?case by simp
qed

lemma collectFixed_member:
  "k < length items \<Longrightarrow>
   (i + k \<in> index ` set (collectFixed items i)) = truthy_num (item_angle (items ! k))"
proof (induction items arbitrary: i k)
  case Nil
  then show ?case by simp
next
  case (Cons x xs)
  have later: "i \<notin> index ` set (collectFixed xs (Suc i))"
    by (auto dest!: collectFixed_index_bounds)
  show ?case
  proof (cases k)
    case 0
    with later show ?thesis by simp
  next
    case (Suc j)
    with Cons.prems have j: "j < length xs" by simp
    have "i + k = Suc i + j" using Suc by simp
    moreover have "Suc i + j \<noteq> i" by simp
    ultimately show ?thesis using Cons.IH [OF j, of "Suc i"] Suc by auto
  qed
qed

lemma agree_map:
  assumes "\<And>x. truthy_num (item_angle x) \<Longrightarrow> h x = x"
    and "\<And>x a. set_angle a (h x) = set_angle a x"
  shows "agree {k. \<not> truthy_num (item_angle (items ! k))} items (map h items)"
  by (auto simp: agree_def assms)

lemma agree_eq:
  assumes "agree K xs ys" "\<forall>k < length xs. k \<notin> K"
  shows "xs = ys"
  using assms by (auto simp: agree_def intro: nth_equalityI)

lemma wedges_length: "length (fst (wedges i fs (xs, p))) = length xs"
proof (induction "length fs - i" arbitrary: i xs p)
  case 0
  then show ?case by (simp add: wedges_unfold)
next
  case (Suc d)
  then have i: "i < length fs" by simp
  obtain xs' p' where x: "wedge i fs (xs, p) = (xs', p')" by (cases "wedge i fs (xs, p)")
  then have "length xs' = length xs" using wedge_length [of i fs xs p] by simp
  moreover have "length (fst (wedges (Suc i) fs (xs', p'))) = length xs'"
    using Suc.hyps(2) by (intro Suc.hyps(1)) simp
  ultimately show ?case using i x by (simp add: wedges_unfold)
qed

lemma wedges_cover_agree:
  assumes "agree K xs ys" "fs \<noteq> []" "sorted_wrt (<) (map index fs)"
    and "\<forall>f \<in> set fs. index f < length xs"
    and "\<forall>k < length xs. k \<in> K \<longrightarrow> k \<notin> index ` set fs"
  shows "fst (wedges 0 fs (xs, p)) = fst (wedges 0 fs (ys, p))"
proof -
  from assms(2,4) have n: "0 < length xs" by (cases fs) auto
  let ?W = "\<Union>l \<in> {0..<length fs}. wedgeSet l fs (length xs)"
  have ag: "agree (K - ?W) (fst (wedges 0 fs (xs, p))) (fst (wedges 0 fs (ys, p)))"
    by (rule wedges_agree [OF assms(1) n assms(4)])
  have "\<forall>k < length (fst (wedges 0 fs (xs, p))). k \<notin> K - ?W"
  proof (intro allI impI)
    fix k assume "k < length (fst (wedges 0 fs (xs, p)))"
    then have k: "k < length xs" by (simp add: wedges_length)
    show "k \<notin> K - ?W"
    proof
      assume kk: "k \<in> K - ?W"
      with assms(5) k have "k \<notin> index ` set fs" by simp
      from coverage [OF assms(2,3,4) k this] kk show False by auto
    qed
  qed
  with ag show ?thesis by (rule agree_eq)
qed

lemma layoutLevel_map:
  assumes "items \<noteq> []"
    and h1: "\<And>x. truthy_num (item_angle x) \<Longrightarrow> h x = x"
    and h2: "\<And>x. truthy_num (item_angle (h x)) = truthy_num (item_angle x)"
    and h3: "\<And>x a. set_angle a (h x) = set_angle a x"
  shows "fst (layoutLevel (map h items) p) = fst (layoutLevel items p)"
    and "fst (layoutLevel items p) \<Longrightarrow>
          snd (layoutLevel (map h items) p) = snd (layoutLevel items p)"
proof -
  let ?fs = "collectFixed items 0"
  let ?K = "{k. \<not> truthy_num (item_angle (items ! k))}"
  have cf: "collectFixed (map h items) 0 = ?fs" using h1 h2 by (rule collectFixed_map)
  have ag0: "agree ?K items (map h items)" using h1 h3 by (rule agree_map)
  show "fst (layoutLevel (map h items) p) = fst (layoutLevel items p)"
    by (simp add: layoutLevel_def Let_def cf)
  assume ok: "fst (layoutLevel items p)"
  then have v: "fixedAnglesValid None ?fs" "\<not> parentCollides ?fs p"
    by (auto simp: layoutLevel_def Let_def split: if_splits)
  show "snd (layoutLevel (map h items) p) = snd (layoutLevel items p)"
  proof (cases "?fs = []")
    case True
    let ?f = "\<lparr>angle = firstAngle p, index = 0\<rparr>"
    let ?xs = "items[0 := set_angle (firstAngle p) (items ! 0)]"
    let ?ys = "(map h items)[0 := set_angle (firstAngle p) (map h items ! 0)]"
    have ag: "agree (?K - {0}) ?xs ?ys"
      using assms(1) by (intro agree_update ag0) simp
    have "fst (wedges 0 [?f] (?xs, p)) = fst (wedges 0 [?f] (?ys, p))"
      using assms(1) by (intro wedges_cover_agree [OF ag]) simp_all
    with True v show ?thesis
      by (simp add: layoutLevel_def Let_def cf)
  next
    case False
    have "fst (wedges 0 ?fs (items, p)) = fst (wedges 0 ?fs (map h items, p))"
    proof (rule wedges_cover_agree [OF ag0 False collectFixed_sorted])
      show "\<forall>f \<in> set ?fs. index f < length items" by (simp add: collectFixed_index_less)
      show "\<forall>k < length items. k \<in> ?K \<longrightarrow> k \<notin> index ` set ?fs"
        using collectFixed_member [of _ items 0] by simp
    qed
    with False v show ?thesis
      by (simp add: layoutLevel_def Let_def cf)
  qed
qed

lemma layoutLevel_clearZero:
  assumes "items \<noteq> []"
  shows "fst (layoutLevel (map clearZero items) p) = fst (layoutLevel items p)"
    and "fst (layoutLevel items p) \<Longrightarrow>
          snd (layoutLevel (map clearZero items) p) = snd (layoutLevel items p)"
  by (rule layoutLevel_map [OF assms]; simp add: clearZero_truthy)+

lemma wedgeLoop_some:
  "\<forall>x \<in> set items. item_angle x \<noteq> None \<Longrightarrow>
   \<forall>x \<in> set (wedgeLoop i c g e b w p items). item_angle x \<noteq> None"
proof (induction i c g e b w p items rule: wedgeLoop_induct)
  case (stop i c g e b w p items)
  then show ?case by (simp add: wedgeLoop_done)
next
  case (step i c g e b w p items)
  have upd: "\<forall>x \<in> set (items[i := set_angle a (items ! i)]). item_angle x \<noteq> None" for a
    using step.prems by (auto dest!: set_update_subset_insert [THEN subsetD])
  show ?case
    using step.IH(1) [OF _ upd] step.IH(2) [OF _ upd] step.hyps
    by (cases "g \<and> b + w * of_nat c + w / 2 - the p > 0") (simp_all add: wedgeLoop_step)
qed

lemma wedges_some:
  "\<forall>x \<in> set items. item_angle x \<noteq> None \<Longrightarrow>
   \<forall>x \<in> set (fst (wedges i fs (items, p))). item_angle x \<noteq> None"
proof (induction "length fs - i" arbitrary: i items p)
  case 0
  then show ?case by (simp add: wedges_unfold)
next
  case (Suc d)
  then have i: "i < length fs" by simp
  obtain xs' p' where x: "wedge i fs (items, p) = (xs', p')" by (cases "wedge i fs (items, p)")
  then have "xs' = fst (wedge i fs (items, p))" by simp
  then have "\<forall>x \<in> set xs'. item_angle x \<noteq> None"
    using wedgeLoop_some [OF Suc.prems] by (simp add: wedge_def Let_def)
  then have "\<forall>x \<in> set (fst (wedges (Suc i) fs (xs', p'))). item_angle x \<noteq> None"
    using Suc.hyps(2) by (intro Suc.hyps(1)) simp_all
  then show ?case using i x by (simp add: wedges_unfold)
qed

text \<open>After a successful layout of a level every item has an angle.\<close>

lemma layoutLevel_angles_set:
  assumes "items \<noteq> []" "fst (layoutLevel items p)"
  shows "\<forall>x \<in> set (snd (layoutLevel items p)). item_angle x \<noteq> None"
proof -
  have some: "\<forall>x \<in> set (map fillZero items). item_angle x \<noteq> None"
    by (auto simp: fillZero_def truthy_num_def split: option.splits)
  have eq: "snd (layoutLevel items p) = snd (layoutLevel (map fillZero items) p)"
    by (rule layoutLevel_map(2) [OF assms(1) _ _ _ assms(2), symmetric])
       (simp_all add: fillZero_def truthy_num_def)
  have upd: "\<forall>x \<in> set ((map fillZero items)[0 := set_angle a (map fillZero items ! 0)]).
               item_angle x \<noteq> None" for a
    using some by (auto dest!: set_update_subset_insert [THEN subsetD])
  show ?thesis
    unfolding eq using some wedges_some [OF some] wedges_some [OF upd]
    by (simp add: layoutLevel_def Let_def split: if_splits)
qed

text \<open>
  C10: an item whose angle is \<open>0\<close> is laid out as if it had no angle. It is not among the
  collected fixed angles (no collected angle is \<open>0\<close>, and leaving the zeros out does not
  change what is collected), so it takes no part in the validation or in the check
  against the parent angle: the layout succeeds with the zeros exactly when it succeeds
  without them. And when it succeeds, it gives the same result, at every level below as
  well: the angle \<open>0\<close> is overwritten like an absent one.
\<close>

theorem zero_angle_not_fixed:
  "collectFixed (map clearZero items) 0 = collectFixed items 0 \<and>
   (\<forall>f \<in> set (collectFixed items 0). angle f \<noteq> 0) \<and>
   fst (updateItemAngles (map clearZero items) parentAngle) = fst (updateItemAngles items parentAngle) \<and>
   (fst (updateItemAngles items parentAngle) \<longrightarrow>
      updateItemAngles (map clearZero items) parentAngle = updateItemAngles items parentAngle)"
proof (cases "items = []")
  case True
  then show ?thesis by (simp add: updateItemAngles.simps)
next
  case False
  note ll = layoutLevel_clearZero [OF False, of parentAngle]
  have f: "fst (updateItemAngles (map clearZero items) parentAngle) = fst (updateItemAngles items parentAngle)"
    using False ll(1) by (simp add: updateItemAngles_ok)
  have "updateItemAngles (map clearZero items) parentAngle = updateItemAngles items parentAngle"
    if "fst (updateItemAngles items parentAngle)"
  proof -
    from that False have ok: "fst (layoutLevel items parentAngle)" by (simp add: updateItemAngles_ok)
    with ll have "layoutLevel (map clearZero items) parentAngle = layoutLevel items parentAngle"
      by (simp add: prod_eq_iff)
    then show ?thesis
      using False
      by (simp add: updateItemAngles.simps [of items] updateItemAngles.simps [of "map clearZero items"])
  qed
  with f show ?thesis
    by (simp add: collectFixed_clearZero collectFixed_nonzero)
qed

theorem zero_angle_not_fixed_witness:
  "updateItemAngles [leaf ''a'' (Some 0), leaf ''b'' None, leaf ''c'' (Some 0)] None =
     (True, [leaf ''a'' (Some 90), leaf ''b'' (Some 210), leaf ''c'' (Some 330)]) \<and>
   updateItemAngles (map clearZero [leaf ''a'' (Some 0), leaf ''b'' None, leaf ''c'' (Some 0)]) None =
     (True, [leaf ''a'' (Some 90), leaf ''b'' (Some 210), leaf ''c'' (Some 330)])"
proof -
  have r: "updateItemAngles [leaf ''a'' (Some 0), leaf ''b'' None, leaf ''c'' (Some 0)] None =
     (True, [leaf ''a'' (Some 90), leaf ''b'' (Some 210), leaf ''c'' (Some 330)])"
    by (simp add: layout_eval leaf_def)
  then have "fst (updateItemAngles [leaf ''a'' (Some 0), leaf ''b'' None, leaf ''c'' (Some 0)] None)"
    by simp
  with zero_angle_not_fixed [of "[leaf ''a'' (Some 0), leaf ''b'' None, leaf ''c'' (Some 0)]" None] r
  show ?thesis by simp
qed

end
